theory Spec2Isabelle
  imports Complex_Main "HOL-Library.Word" "HOL-Library.Sublist" "HOL-Library.AList"
begin

unbundle bit_operations_syntax

section \<open>JavaScript numbers and the operators of \<^verbatim>\<open>app.js\<close>\<close>

text \<open>
  Every value the flasher computes with is a JavaScript number. The ones that occur are
  integers far below \<open>2^53\<close> (so no rounding takes place), \<open>NaN\<close> (what \<open>parseInt\<close>
  returns on text that holds no digit) and the two infinities (what \<open>Math.min()\<close> and
  \<open>Math.max()\<close> return on no argument).
\<close>

datatype number = NaN | NegInf | Num int | PosInf

type_synonym byte = "8 word"

text \<open>
  \<open>ToInt32\<close> of ECMAScript: the bitwise operators first bring each operand into the
  signed 32-bit range; \<open>NaN\<close> and the infinities become 0.
\<close>

fun to_int32 :: "number \<Rightarrow> int" where
  "to_int32 (Num n) = signed_take_bit 31 n"
| "to_int32 _ = 0"

definition js_xor :: "number \<Rightarrow> number \<Rightarrow> number" where
  "js_xor a b = Num (to_int32 a XOR to_int32 b)"

definition js_and :: "number \<Rightarrow> number \<Rightarrow> number" where
  "js_and a b = Num (to_int32 a AND to_int32 b)"

text \<open>\<open>a << k\<close> and \<open>a >> k\<close> for a literal shift count \<open>k\<close>: the count is taken modulo 32 and
  the result of the left shift is wrapped to 32 bits again.\<close>

definition js_shl :: "number \<Rightarrow> nat \<Rightarrow> number" where
  "js_shl a k = Num (signed_take_bit 31 (push_bit (k mod 32) (to_int32 a)))"

definition js_shr :: "number \<Rightarrow> nat \<Rightarrow> number" where
  "js_shr a k = Num (drop_bit (k mod 32) (to_int32 a))"

text \<open>A number used as a condition: 0 and \<open>NaN\<close> are false.\<close>

fun truthy :: "number \<Rightarrow> bool" where
  "truthy NaN = False"
| "truthy (Num n) = (n \<noteq> 0)"
| "truthy _ = True"

text \<open>\<open>a < b\<close>, \<open>a <= b\<close> and \<open>a > b\<close>: every comparison with \<open>NaN\<close> is false.\<close>

fun js_lt :: "number \<Rightarrow> number \<Rightarrow> bool" where
  "js_lt NaN _ = False"
| "js_lt _ NaN = False"
| "js_lt (Num a) (Num b) = (a < b)"
| "js_lt _ NegInf = False"
| "js_lt NegInf _ = True"
| "js_lt PosInf _ = False"
| "js_lt _ PosInf = True"

fun js_le :: "number \<Rightarrow> number \<Rightarrow> bool" where
  "js_le NaN _ = False"
| "js_le _ NaN = False"
| "js_le a b = (a = b \<or> js_lt a b)"

definition js_gt :: "number \<Rightarrow> number \<Rightarrow> bool" where
  "js_gt a b = js_lt b a"

text \<open>\<open>a + b\<close> on numbers.\<close>

fun js_add :: "number \<Rightarrow> number \<Rightarrow> number" where
  "js_add NaN _ = NaN"
| "js_add _ NaN = NaN"
| "js_add (Num a) (Num b) = Num (a + b)"
| "js_add PosInf NegInf = NaN"
| "js_add NegInf PosInf = NaN"
| "js_add PosInf _ = PosInf"
| "js_add _ PosInf = PosInf"
| "js_add NegInf _ = NegInf"
| "js_add _ NegInf = NegInf"

text \<open>A byte as the number an array of bytes holds.\<close>

definition byte_num :: "byte \<Rightarrow> number" where
  "byte_num b = Num (uint b)"

section \<open>Checksums\<close>

subsection \<open>\<^verbatim>\<open>xorChecksum\<close> (app.js) and \<^verbatim>\<open>calcChecksum\<close> (the variant with a loop)\<close>

text \<open>\<^verbatim>\<open>buf.reduce((a, b) => a ^ b, 0)\<close>\<close>

definition xorChecksum :: "number list \<Rightarrow> number" where
  "xorChecksum buf = foldl (\<lambda>a b. js_xor a b) (Num 0) buf"

text \<open>\<^verbatim>\<open>let res = 0; for (let b of data) res ^= b; return res;\<close>\<close>

primrec calcChecksum_loop :: "number \<Rightarrow> number list \<Rightarrow> number" where
  "calcChecksum_loop res [] = res"
| "calcChecksum_loop res (b # bs) = calcChecksum_loop (js_xor res b) bs"

definition calcChecksum :: "number list \<Rightarrow> number" where
  "calcChecksum data = calcChecksum_loop (Num 0) data"

subsection \<open>\<^verbatim>\<open>mspCrc8D5\<close>\<close>

text \<open>
  One pass of the inner loop body:
  \<^verbatim>\<open>crc = (crc & 0x80) ? ((crc << 1) ^ 0xD5) : (crc << 1); crc &= 0xFF;\<close>
\<close>

definition crc_round :: "number \<Rightarrow> number" where
  "crc_round crc =
     js_and (if truthy (js_and crc (Num 0x80)) then js_xor (js_shl crc 1) (Num 0xD5)
             else js_shl crc 1)
            (Num 0xFF)"

text \<open>\<^verbatim>\<open>for (let i = 0; i < 8; i++) { ... }\<close>\<close>

function crc_rounds :: "nat \<Rightarrow> number \<Rightarrow> number" where
  "crc_rounds i crc = (if i < 8 then crc_rounds (i + 1) (crc_round crc) else crc)"
  by pat_completeness auto
termination
  by (relation "measure (\<lambda>(i, crc). 8 - i)") auto

text \<open>\<^verbatim>\<open>let crc = 0; for (const b of buf) { crc ^= b; ... } return crc;\<close>\<close>

primrec mspCrc8D5_loop :: "number \<Rightarrow> number list \<Rightarrow> number" where
  "mspCrc8D5_loop crc [] = crc"
| "mspCrc8D5_loop crc (b # bs) = mspCrc8D5_loop (crc_rounds 0 (js_xor crc b)) bs"

definition mspCrc8D5 :: "number list \<Rightarrow> number" where
  "mspCrc8D5 buf = mspCrc8D5_loop (Num 0) buf"

text \<open>
  The CRC as the specification words it, on 8-bit values: exclusive-or the byte into an
  8-bit accumulator, then 8 rounds of "shift left; if the top bit was set, exclusive-or
  with 0xD5"; initial value 0, no reflection, no final exclusive-or.
\<close>

definition crc8_shift :: "byte \<Rightarrow> byte" where
  "crc8_shift acc = (if bit acc 7 then push_bit 1 acc XOR 0xD5 else push_bit 1 acc)"

definition crc8_d5 :: "byte list \<Rightarrow> byte" where
  "crc8_d5 bytes = foldl (\<lambda>acc b. (crc8_shift ^^ 8) (acc XOR b)) 0 bytes"

section \<open>Constants\<close>

definition ACK :: number where "ACK = Num 0x79"
definition NACK :: number where "NACK = Num 0x1F"
definition FLASH_BASE :: int where "FLASH_BASE = 0x08000000"
definition PAGE_SIZE :: int where "PAGE_SIZE = 2048"
definition WRITE_CHUNK :: nat where "WRITE_CHUNK = 32"

section \<open>The serial channel\<close>

text \<open>
  The program talks to the device through \<open>writer.write\<close>, \<open>reader.read\<close>, \<open>Date.now\<close> and
  \<open>setTimeout\<close>. The state of that world:
  \<^item> \<open>now\<close>: the clock \<open>Date.now()\<close> reads, in milliseconds;
  \<^item> \<open>reads\<close>: what the coming calls of \<open>reader.read()\<close> resolve to, in order: the time
    each takes and the bytes of its \<open>value\<close> (\<open>[]\<close> for an undefined or empty value); once
    the list is used up, a further \<open>reader.read()\<close> never resolves;
  \<^item> \<open>trace\<close>: what the program has done so far, oldest first. \<open>Tx\<close>, \<open>RxWait\<close> and \<open>Sleep\<close>
    record the calls of \<open>writeBytes\<close>, \<open>readByte\<close> and \<open>sleep\<close> with their arguments;
    \<open>EraseCall\<close> and \<open>WriteCall\<close> record the calls of \<open>blErasePage\<close> and \<open>blWrite\<close>.
  Writing is taken to succeed and to take no time; time passes in reads and sleeps only.
\<close>

datatype event =
    Tx "byte list"
  | RxWait nat
  | Sleep nat
  | EraseCall number
  | WriteCall number "number list"

record world =
  now :: nat
  reads :: "(nat \<times> byte list) list"
  trace :: "event list"

text \<open>The \<open>Error\<close>s the program throws, by their message, and the \<open>RangeError\<close> the engine
  throws for a call with too many arguments.\<close>

datatype error =
    ReadTimeout
  | InvalidResponse number
  | SyncFailed
  | EraseFailed number
  | WriteFailed
  | RangeError

text \<open>
  An asynchronous function ends by returning, by throwing, or never: \<open>Blocked\<close> is the
  \<open>await\<close> of a \<open>reader.read()\<close> that does not resolve. No \<open>catch\<close> sees it.
\<close>

datatype 'a result = Ok 'a | Throw error | Blocked

type_synonym 'a io = "world \<Rightarrow> 'a result \<times> world"

definition io_return :: "'a \<Rightarrow> 'a io" where
  "io_return x w = (Ok x, w)"

definition io_throw :: "error \<Rightarrow> 'a io" where
  "io_throw e w = (Throw e, w)"

definition io_bind :: "'a io \<Rightarrow> ('a \<Rightarrow> 'b io) \<Rightarrow> 'b io" where
  "io_bind m f w =
     (case m w of
        (Ok x, w') \<Rightarrow> f x w'
      | (Throw e, w') \<Rightarrow> (Throw e, w')
      | (Blocked, w') \<Rightarrow> (Blocked, w'))"

text \<open>\<^verbatim>\<open>try { m } catch { h }\<close>\<close>

definition io_catch :: "'a io \<Rightarrow> (error \<Rightarrow> 'a io) \<Rightarrow> 'a io" where
  "io_catch m h w =
     (case m w of
        (Ok x, w') \<Rightarrow> (Ok x, w')
      | (Throw e, w') \<Rightarrow> h e w'
      | (Blocked, w') \<Rightarrow> (Blocked, w'))"

definition record_event :: "event \<Rightarrow> unit io" where
  "record_event e w = (Ok (), w\<lparr>trace := trace w @ [e]\<rparr>)"

text \<open>\<open>new Uint8Array(bytes)\<close> keeps the low 8 bits of each integer and turns \<open>NaN\<close> into 0.\<close>

fun to_uint8 :: "number \<Rightarrow> byte" where
  "to_uint8 (Num n) = word_of_int n"
| "to_uint8 _ = 0"

text \<open>\<^verbatim>\<open>await writer.write(new Uint8Array(bytes));\<close>\<close>

definition writeBytes :: "number list \<Rightarrow> unit io" where
  "writeBytes bytes = record_event (Tx (map to_uint8 bytes))"

text \<open>
  \<^verbatim>\<open>
  const start = Date.now();
  while (Date.now() - start < timeout) {
    const { value } = await reader.read();
    if (value && value.length) return value[0];
  }
  throw new Error("Read timeout");
  \<close>
  The loop, on the clock and the coming reads; it returns them as they are afterwards.
  Only the first byte of a value is used; the others are dropped.
\<close>

fun readByte_loop ::
  "nat \<Rightarrow> nat \<Rightarrow> nat \<Rightarrow> (nat \<times> byte list) list \<Rightarrow>
   number result \<times> nat \<times> (nat \<times> byte list) list" where
  "readByte_loop start timeout t [] =
     (if t - start < timeout then (Blocked, t, []) else (Throw ReadTimeout, t, []))"
| "readByte_loop start timeout t ((d, v) # rs) =
     (if t - start < timeout then
        (case v of
           b # _ \<Rightarrow> (Ok (byte_num b), t + d, rs)
         | [] \<Rightarrow> readByte_loop start timeout (t + d) rs)
      else (Throw ReadTimeout, t, (d, v) # rs))"

definition readByte :: "nat \<Rightarrow> number io" where
  "readByte timeout w =
     (case readByte_loop (now w) timeout (now w) (reads w) of
        (r, t, rs) \<Rightarrow> (r, w\<lparr>now := t, reads := rs, trace := trace w @ [RxWait timeout]\<rparr>))"

text \<open>\<^verbatim>\<open>new Promise(r => setTimeout(r, ms))\<close>\<close>

definition sleep :: "nat \<Rightarrow> unit io" where
  "sleep ms w = (Ok (), w\<lparr>now := now w + ms, trace := trace w @ [Sleep ms]\<rparr>)"

text \<open>
  \<^verbatim>\<open>
  const b = await readByte();          // timeout = 2000
  if (b === ACK) return true;
  if (b === NACK) return false;
  throw new Error("Invalid response: " + b.toString(16));
  \<close>
\<close>

definition waitAck :: "bool io" where
  "waitAck =
     io_bind (readByte 2000) (\<lambda>b.
       if b = ACK then io_return True
       else if b = NACK then io_return False
       else io_throw (InvalidResponse b))"

section \<open>The STM32 bootloader client\<close>

text \<open>
  \<^verbatim>\<open>
  for (let i = 0; i < 5; i++) {
    await writeBytes([0x7F]);
    try {
      const r = await readByte(500);
      if (r === ACK) { log("Sync OK"); return; }
    } catch {}
    await sleep(100);
  }
  throw new Error("Sync failed");
  \<close>
  The \<open>try\<close> block yields whether it returned from the function.
\<close>

function blSync_loop :: "nat \<Rightarrow> unit io" where
  "blSync_loop i =
     (if i < 5 then
        io_bind (writeBytes [Num 0x7F]) (\<lambda>_.
        io_bind (io_catch (io_bind (readByte 500) (\<lambda>r. io_return (r = ACK)))
                          (\<lambda>_. io_return False)) (\<lambda>synced.
          if synced then io_return ()
          else io_bind (sleep 100) (\<lambda>_. blSync_loop (i + 1))))
      else io_throw SyncFailed)"
  by pat_completeness auto
termination
  by (relation "measure (\<lambda>i. 5 - i)") auto

definition blSync :: "unit io" where
  "blSync = blSync_loop 0"

text \<open>\<^verbatim>\<open>await writeBytes([cmd, cmd ^ 0xFF]); return await waitAck();\<close>\<close>

definition blSendCmd :: "number \<Rightarrow> bool io" where
  "blSendCmd cmd = io_bind (writeBytes [cmd, js_xor cmd (Num 0xFF)]) (\<lambda>_. waitAck)"

text \<open>
  \<^verbatim>\<open>
  if (!(await blSendCmd(0x44))) return false;
  const payload = [0x00, 0x00, (page >> 8) & 0xFF, page & 0xFF];
  await writeBytes(payload);
  await writeBytes([xorChecksum(payload)]);
  return await waitAck();
  \<close>
\<close>

definition blErasePage :: "number \<Rightarrow> bool io" where
  "blErasePage page =
     io_bind (record_event (EraseCall page)) (\<lambda>_.
     io_bind (blSendCmd (Num 0x44)) (\<lambda>acked.
       if \<not> acked then io_return False
       else
         let payload = [Num 0x00, Num 0x00, js_and (js_shr page 8) (Num 0xFF),
                        js_and page (Num 0xFF)]
         in io_bind (writeBytes payload) (\<lambda>_.
            io_bind (writeBytes [xorChecksum payload]) (\<lambda>_. waitAck))))"

text \<open>
  \<^verbatim>\<open>
  if (!(await blSendCmd(0x31))) return false;
  const addrBytes = [(addr >> 24) & 0xFF, (addr >> 16) & 0xFF, (addr >> 8) & 0xFF, addr & 0xFF];
  await writeBytes(addrBytes);
  await writeBytes([xorChecksum(addrBytes)]);
  if (!(await waitAck())) return false;
  const payload = [data.length - 1, ...data];
  await writeBytes(payload);
  await writeBytes([xorChecksum(payload)]);
  return await waitAck();
  \<close>
\<close>

definition blWrite :: "number \<Rightarrow> number list \<Rightarrow> bool io" where
  "blWrite addr data =
     io_bind (record_event (WriteCall addr data)) (\<lambda>_.
     io_bind (blSendCmd (Num 0x31)) (\<lambda>acked.
       if \<not> acked then io_return False
       else
         let addrBytes = [js_and (js_shr addr 24) (Num 0xFF), js_and (js_shr addr 16) (Num 0xFF),
                          js_and (js_shr addr 8) (Num 0xFF), js_and addr (Num 0xFF)]
         in io_bind (writeBytes addrBytes) (\<lambda>_.
            io_bind (writeBytes [xorChecksum addrBytes]) (\<lambda>_.
            io_bind waitAck (\<lambda>acked2.
              if \<not> acked2 then io_return False
              else
                let payload = Num (int (length data) - 1) # data
                in io_bind (writeBytes payload) (\<lambda>_.
                   io_bind (writeBytes [xorChecksum payload]) (\<lambda>_. waitAck)))))))"

section \<open>Intel HEX\<close>

text \<open>
  A text is a list of characters with codes below 256. \<open>parseInt(s, 16)\<close>: skip leading
  white space, take one sign, skip one \<open>0x\<close> or \<open>0X\<close>, and read hexadecimal digits as far as
  they go; \<open>NaN\<close> if there is none.
\<close>

definition is_space :: "char \<Rightarrow> bool" where
  "is_space c = (of_char c \<in> {9, 10, 11, 12, 13, 32, 160 :: nat})"

definition hex_digit :: "char \<Rightarrow> nat option" where
  "hex_digit c =
     (let n = of_char c :: nat in
      if 48 \<le> n \<and> n \<le> 57 then Some (n - 48)
      else if 97 \<le> n \<and> n \<le> 102 then Some (n - 87)
      else if 65 \<le> n \<and> n \<le> 70 then Some (n - 55)
      else None)"

fun leading_digits :: "string \<Rightarrow> nat list" where
  "leading_digits [] = []"
| "leading_digits (c # cs) =
     (case hex_digit c of Some d \<Rightarrow> d # leading_digits cs | None \<Rightarrow> [])"

definition digits_value :: "nat list \<Rightarrow> int" where
  "digits_value ds = foldl (\<lambda>acc d. 16 * acc + int d) 0 ds"

definition strip_sign :: "string \<Rightarrow> bool \<times> string" where
  "strip_sign s =
     (case s of
        [] \<Rightarrow> (False, [])
      | c # cs \<Rightarrow>
          if c = CHR ''-'' then (True, cs)
          else if c = CHR ''+'' then (False, cs)
          else (False, s))"

definition strip_0x :: "string \<Rightarrow> string" where
  "strip_0x s =
     (case s of
        a # b # cs \<Rightarrow> if a = CHR ''0'' \<and> (b = CHR ''x'' \<or> b = CHR ''X'') then cs else s
      | _ \<Rightarrow> s)"

definition parseInt16 :: "string \<Rightarrow> number" where
  "parseInt16 s =
     (case strip_sign (dropWhile is_space s) of
        (negative, s') \<Rightarrow>
          (case leading_digits (strip_0x s') of
             [] \<Rightarrow> NaN
           | ds \<Rightarrow> Num (if negative then - digits_value ds else digits_value ds)))"

text \<open>\<open>s.substr(start, length)\<close> for \<open>start \<ge> 0\<close>.\<close>

definition substr :: "string \<Rightarrow> nat \<Rightarrow> nat \<Rightarrow> string" where
  "substr s start len = take len (drop start s)"

text \<open>\<open>text.split(/\r?\n/)\<close>: a line ends at a line feed, or at a carriage return that a
  line feed follows.\<close>

fun split_lines :: "string \<Rightarrow> string list" where
  "split_lines [] = [[]]"
| "split_lines [c] = (if c = CHR 0x0A then [[], []] else [[c]])"
| "split_lines (c # d # cs) =
     (if c = CHR 0x0A then [] # split_lines (d # cs)
      else if c = CHR 0x0D \<and> d = CHR 0x0A then [] # split_lines cs
      else (case split_lines (d # cs) of
              l # ls \<Rightarrow> (c # l) # ls
            | [] \<Rightarrow> [[c]]))"

text \<open>
  The image is a \<open>Map\<close> from number to number: a list of key and value in the order of first
  insertion; \<open>mem.set\<close> replaces the value of a key that is there and appends a new one.
\<close>

type_synonym memory = "(number \<times> number) list"

text \<open>
  \<^verbatim>\<open>
  for (let i = 0; i < len; i++) {
    const v = parseInt(line.substr(9 + i*2, 2), 16);
    mem.set(base + addr + i, v);
  }
  \<close>
\<close>

function store_data :: "string \<Rightarrow> number \<Rightarrow> number \<Rightarrow> int \<Rightarrow> nat \<Rightarrow> memory \<Rightarrow> memory" where
  "store_data line base addr len i mem =
     (if int i < len then
        store_data line base addr len (i + 1)
          (AList.update (js_add (js_add base addr) (Num (int i)))
             (parseInt16 (substr line (9 + i * 2) 2)) mem)
      else mem)"
  by pat_completeness auto
termination
  by (relation "measure (\<lambda>(line, base, addr, len, i, mem). nat (len - int i))") auto

text \<open>The loop for the \<open>len\<close> that \<open>parseInt\<close> returned: \<open>i < len\<close> is false when \<open>len\<close> is
  \<open>NaN\<close>, and \<open>parseInt\<close> returns no infinity.\<close>

fun store_record :: "string \<Rightarrow> number \<Rightarrow> number \<Rightarrow> number \<Rightarrow> memory \<Rightarrow> memory" where
  "store_record line base addr (Num len) mem = store_data line base addr len 0 mem"
| "store_record line base addr _ mem = mem"

text \<open>
  One line of the loop in \<open>parseHex\<close>, on the image and \<open>base\<close>:
  \<^verbatim>\<open>
  if (!line.startsWith(":")) continue;
  const len  = parseInt(line.substr(1,2),16);
  const addr = parseInt(line.substr(3,4),16);
  const type = parseInt(line.substr(7,2),16);
  if (type === 0x04) {
    base = parseInt(line.substr(9,4),16) << 16;
  } else if (type === 0x00) {
    for ...
  }
  \<close>
\<close>

definition parse_line :: "memory \<times> number \<Rightarrow> string \<Rightarrow> memory \<times> number" where
  "parse_line st line =
     (case st of (mem, base) \<Rightarrow>
        if \<not> prefix '':'' line then (mem, base)
        else
          let len = parseInt16 (substr line 1 2);
              addr = parseInt16 (substr line 3 4);
              rtype = parseInt16 (substr line 7 2)
          in if rtype = Num 0x04 then (mem, js_shl (parseInt16 (substr line 9 4)) 16)
             else if rtype = Num 0x00 then (store_record line base addr len mem, base)
             else (mem, base))"

text \<open>\<^verbatim>\<open>const mem = new Map(); let base = 0; for (const line of text.split(/\r?\n/)) {...} return mem;\<close>\<close>

definition parseHex :: "string \<Rightarrow> memory" where
  "parseHex text = fst (foldl parse_line ([], Num 0) (split_lines text))"

section \<open>The flash procedure\<close>

text \<open>
  \<open>Math.floor((a - FLASH_BASE) / PAGE_SIZE)\<close>. The quotient is the one value of the program
  that need not be an integer; it is rounded down at once. \<open>NaN\<close> and the infinities pass
  through.
\<close>

fun page_index :: "number \<Rightarrow> number" where
  "page_index (Num a) = Num \<lfloor>(real_of_int a - real_of_int FLASH_BASE) / real_of_int PAGE_SIZE\<rfloor>"
| "page_index a = a"

text \<open>
  \<open>Math.min(...xs)\<close> and \<open>Math.max(...xs)\<close>. The spread passes every element of \<open>xs\<close> as an
  argument of its own, and an engine accepts only so many arguments in a call: with more
  than \<open>max_args\<close> elements the call throws a \<open>RangeError\<close>. The bound belongs to the engine
  that runs the program, so it is a parameter here. Within it the result is \<open>NaN\<close> if any
  argument is \<open>NaN\<close>, else the least (greatest) argument, starting from \<open>+Infinity\<close>
  (\<open>-Infinity\<close>).
\<close>

definition Math_min :: "nat \<Rightarrow> number list \<Rightarrow> error + number" where
  "Math_min max_args xs =
     (if max_args < length xs then Inl RangeError
      else Inr (if NaN \<in> set xs then NaN
                else foldl (\<lambda>lowest x. if js_lt x lowest then x else lowest) PosInf xs))"

definition Math_max :: "nat \<Rightarrow> number list \<Rightarrow> error + number" where
  "Math_max max_args xs =
     (if max_args < length xs then Inl RangeError
      else Inr (if NaN \<in> set xs then NaN
                else foldl (\<lambda>highest x. if js_lt highest x then x else highest) NegInf xs))"

text \<open>
  \<^verbatim>\<open>
  const addrs = [...mem.keys()];
  const minAddr = Math.min(...addrs);
  const maxAddr = Math.max(...addrs);
  const startPage = Math.floor((minAddr - FLASH_BASE) / PAGE_SIZE);
  const endPage   = Math.floor((maxAddr - FLASH_BASE) / PAGE_SIZE);
  \<close>
  Each constant is the error thrown on the way to it, or its value.
\<close>

definition minAddr :: "nat \<Rightarrow> memory \<Rightarrow> error + number" where
  "minAddr max_args mem = Math_min max_args (map fst mem)"

definition maxAddr :: "nat \<Rightarrow> memory \<Rightarrow> error + number" where
  "maxAddr max_args mem = Math_max max_args (map fst mem)"

definition startPage :: "nat \<Rightarrow> memory \<Rightarrow> error + number" where
  "startPage max_args mem =
     (case minAddr max_args mem of
        Inl e \<Rightarrow> Inl e
      | Inr lo \<Rightarrow>
          (case maxAddr max_args mem of
             Inl e \<Rightarrow> Inl e
           | Inr hi \<Rightarrow> Inr (page_index lo)))"

definition endPage :: "nat \<Rightarrow> memory \<Rightarrow> error + number" where
  "endPage max_args mem =
     (case minAddr max_args mem of
        Inl e \<Rightarrow> Inl e
      | Inr lo \<Rightarrow>
          (case maxAddr max_args mem of
             Inl e \<Rightarrow> Inl e
           | Inr hi \<Rightarrow> Inr (page_index hi)))"

text \<open>
  \<^verbatim>\<open>
  for (let p = startPage; p <= endPage; p++) {
    if (!(await blErasePage(p))) throw new Error("Erase failed: page " + p);
  }
  \<close>
  on integers.
\<close>

function eraseLoop :: "int \<Rightarrow> int \<Rightarrow> unit io" where
  "eraseLoop p e =
     (if p \<le> e then
        io_bind (blErasePage (Num p)) (\<lambda>erased.
          if \<not> erased then io_throw (EraseFailed (Num p))
          else eraseLoop (p + 1) e)
      else io_return ())"
  by pat_completeness auto
termination
  by (relation "measure (\<lambda>(p, e). nat (e + 1 - p))") auto

text \<open>
  The loop on numbers. \<open>p <= endPage\<close> is false at once when either is \<open>NaN\<close> (a key of the
  image is \<open>NaN\<close>) and when \<open>p\<close> is \<open>+Infinity\<close> (the image is empty); with the keys \<open>parseHex\<close>
  makes no other case arises.
\<close>

fun erasePages :: "number \<Rightarrow> number \<Rightarrow> unit io" where
  "erasePages (Num p) (Num e) = eraseLoop p e"
| "erasePages _ _ = io_return ()"

text \<open>
  \<^verbatim>\<open>
  const chunk = [];
  for (let i = 0; i < WRITE_CHUNK; i++) {
    if (mem.has(addr)) chunk.push(mem.get(addr));
    else chunk.push(0xFF);
    addr++;
    if (addr > maxAddr) break;
  }
  \<close>
  It returns \<open>addr\<close> and \<open>chunk\<close> as they are after the loop.
\<close>

function fill_chunk :: "memory \<Rightarrow> int \<Rightarrow> nat \<Rightarrow> int \<Rightarrow> number list \<Rightarrow> int \<times> number list" where
  "fill_chunk mem hi i addr chunk =
     (if i < WRITE_CHUNK then
        let chunk' = chunk @ [case map_of mem (Num addr) of Some v \<Rightarrow> v | None \<Rightarrow> Num 0xFF];
            addr' = addr + 1
        in if addr' > hi then (addr', chunk')
           else fill_chunk mem hi (i + 1) addr' chunk'
      else (addr, chunk))"
  by pat_completeness auto
termination
  by (relation "measure (\<lambda>(mem, hi, i, addr, chunk). WRITE_CHUNK - i)") auto

text \<open>
  \<^verbatim>\<open>
  let addr = minAddr;
  while (addr <= maxAddr) {
    ... chunk ...
    if (!(await blWrite(addr - chunk.length, chunk))) throw new Error("Write failed");
  }
  \<close>
  on integers.
\<close>

function writeLoop :: "memory \<Rightarrow> int \<Rightarrow> int \<Rightarrow> unit io" where
  "writeLoop mem hi addr =
     (if addr \<le> hi then
        (case fill_chunk mem hi 0 addr [] of
           (addr', chunk) \<Rightarrow>
             io_bind (blWrite (Num (addr' - int (length chunk))) chunk) (\<lambda>written.
               if \<not> written then io_throw WriteFailed
               else writeLoop mem hi addr'))
      else io_return ())"
  by pat_completeness auto
termination
proof (relation "measure (\<lambda>(mem, hi, addr). nat (hi + 1 - addr))")
  show "wf (measure (\<lambda>(mem, hi, addr). nat (hi + 1 - addr)))"
    by simp
next
  fix mem :: memory and hi addr addr' :: int and chunk :: "number list" and written :: bool
  assume le: "addr \<le> hi" and x: "(addr', chunk) = fill_chunk mem hi 0 addr []"
    and "\<not> \<not> written"
  have mono: "a \<le> fst (fill_chunk mem hi i a c)" for i a c
  proof (induction mem hi i a c rule: fill_chunk.induct)
    case (1 mem hi i addr chunk)
    show ?case
    proof (cases "i < WRITE_CHUNK \<and> \<not> addr + 1 > hi")
      case True
      then have "addr + 1 \<le> fst (fill_chunk mem hi (i + 1) (addr + 1)
          (chunk @ [case map_of mem (Num addr) of Some v \<Rightarrow> v | None \<Rightarrow> Num 0xFF]))"
        using "1.IH" by simp
      with True show ?thesis
        by (subst fill_chunk.simps) (simp add: Let_def del: fill_chunk.simps)
    next
      case False
      then show ?thesis
        by (subst fill_chunk.simps) (auto simp add: Let_def simp del: fill_chunk.simps)
    qed
  qed
  have grows: "i < WRITE_CHUNK \<Longrightarrow> a < fst (fill_chunk mem hi i a c)" for i a c
    using mono [of "a + 1" "i + 1"
        "c @ [case map_of mem (Num a) of Some v \<Rightarrow> v | None \<Rightarrow> Num 0xFF]"]
    by (subst fill_chunk.simps) (auto simp add: Let_def simp del: fill_chunk.simps)
  have "addr < fst (fill_chunk mem hi 0 addr [])"
    by (rule grows) (simp add: WRITE_CHUNK_def)
  with x have "addr < addr'"
    by (metis fst_conv)
  with le show "((mem, hi, addr'), mem, hi, addr) \<in> measure (\<lambda>(mem, hi, addr). nat (hi + 1 - addr))"
    by simp
qed

fun writeChunks :: "memory \<Rightarrow> number \<Rightarrow> number \<Rightarrow> unit io" where
  "writeChunks mem (Num lo) (Num hi) = writeLoop mem hi lo"
| "writeChunks mem _ _ = io_return ()"

text \<open>
  The body of \<open>flash\<close> after \<open>parseHex\<close>, and \<open>flash\<close>, in an engine that accepts \<open>max_args\<close>
  arguments: \<open>Math.min(...addrs)\<close>, then \<open>Math.max(...addrs)\<close>, then the pages, the erase loop
  and the write loop.
\<close>

definition flashImage :: "nat \<Rightarrow> memory \<Rightarrow> unit io" where
  "flashImage max_args mem =
     (case minAddr max_args mem of
        Inl e \<Rightarrow> io_throw e
      | Inr lo \<Rightarrow>
          (case maxAddr max_args mem of
             Inl e \<Rightarrow> io_throw e
           | Inr hi \<Rightarrow>
               io_bind (erasePages (page_index lo) (page_index hi)) (\<lambda>_.
                 writeChunks mem lo hi)))"

definition flash :: "nat \<Rightarrow> string \<Rightarrow> unit io" where
  "flash max_args hexText = flashImage max_args (parseHex hexText)"

section \<open>Observing a run\<close>

text \<open>
  What a property of \<open>flash\<close> speaks about: the calls of \<open>blWrite\<close> and \<open>blErasePage\<close> in a
  trace, in order, the events a run added to the trace, and the byte the image holds for an
  address (0xFF where it has no entry).
\<close>

fun is_wire :: "event \<Rightarrow> bool" where
  "is_wire (EraseCall _) = False"
| "is_wire (WriteCall _ _) = False"
| "is_wire _ = True"

fun write_calls :: "event list \<Rightarrow> (number \<times> number list) list" where
  "write_calls [] = []"
| "write_calls (WriteCall a d # es) = (a, d) # write_calls es"
| "write_calls (_ # es) = write_calls es"

fun erase_calls :: "event list \<Rightarrow> number list" where
  "erase_calls [] = []"
| "erase_calls (EraseCall p # es) = p # erase_calls es"
| "erase_calls (_ # es) = erase_calls es"

definition new_events :: "world \<Rightarrow> world \<Rightarrow> event list" where
  "new_events w w' = drop (length (trace w)) (trace w')"

definition image_byte :: "memory \<Rightarrow> int \<Rightarrow> number" where
  "image_byte mem a = (case map_of mem (Num a) of Some v \<Rightarrow> v | None \<Rightarrow> Num 0xFF)"

text \<open>
  The chunks as the specification words them: the address range from \<open>a\<close> to \<open>hi\<close> cut
  into pieces of 32 addresses in ascending order, each with the bytes of the image.
\<close>

function chunks :: "memory \<Rightarrow> int \<Rightarrow> int \<Rightarrow> (number \<times> number list) list" where
  "chunks mem hi a =
     (if a \<le> hi then (Num a, map (image_byte mem) [a .. min hi (a + 31)]) # chunks mem hi (a + 32)
      else [])"
  by pat_completeness auto
termination
  by (relation "measure (\<lambda>(mem, hi, a). nat (hi + 1 - a))") auto

text \<open>
  \<open>adds m P\<close>: from every world, the action \<open>m\<close> only appends events to the trace, and \<open>P\<close>
  holds of its result and of the events it appended. \<open>wire\<close>: these are events of the serial
  line only, and an error thrown is an error of the serial line.
\<close>

definition adds :: "'a io \<Rightarrow> ('a result \<Rightarrow> event list \<Rightarrow> bool) \<Rightarrow> bool" where
  "adds m P = (\<forall>w. \<exists>evs. trace (snd (m w)) = trace w @ evs \<and> P (fst (m w)) evs)"

fun channel_error :: "error \<Rightarrow> bool" where
  "channel_error ReadTimeout = True"
| "channel_error (InvalidResponse _) = True"
| "channel_error _ = False"

fun channel_result :: "'a result \<Rightarrow> bool" where
  "channel_result (Throw e) = channel_error e"
| "channel_result _ = True"

definition wire :: "'a result \<Rightarrow> event list \<Rightarrow> bool" where
  "wire r evs = (list_all is_wire evs \<and> channel_result r)"

text \<open>
  \<open>contiguous a cs\<close>: the first chunk starts at \<open>a\<close> and each next one at the address after
  the last byte of the one before. \<open>fixed_size cs\<close>: every chunk but the last has
  \<open>WRITE_CHUNK\<close> bytes, the last between 1 and \<open>WRITE_CHUNK\<close>.
\<close>

fun contiguous :: "int \<Rightarrow> (number \<times> number list) list \<Rightarrow> bool" where
  "contiguous a [] = True"
| "contiguous a ((b, d) # cs) = (b = Num a \<and> contiguous (a + int (length d)) cs)"

fun fixed_size :: "(number \<times> number list) list \<Rightarrow> bool" where
  "fixed_size [] = True"
| "fixed_size [(a, d)] = (1 \<le> length d \<and> length d \<le> WRITE_CHUNK)"
| "fixed_size ((a, d) # c # cs) = (length d = WRITE_CHUNK \<and> fixed_size (c # cs))"

text \<open>
  Worlds and images to run the program on: a device that answers \<open>n\<close> reads with ACK, an
  image of 125952 bytes (the addresses 0x08000000 to 0x0801EBFF, all 0xFF), and an image with
  a gap.
\<close>

definition ack_world :: "nat \<Rightarrow> world" where
  "ack_world n = \<lparr>now = 0, reads = replicate n (0, [0x79]), trace = []\<rparr>"

definition firmware_123k :: memory where
  "firmware_123k = map (\<lambda>a. (Num a, Num 0xFF)) [0x08000000 .. 0x0801EBFF]"

definition gap_image :: memory where
  "gap_image = [(Num 0x08000000, Num 0x11), (Num 0x08000001, Num 0x22), (Num 0x08000021, Num 0x33)]"

text \<open>A small Intel HEX text (four bytes at 0x08000000), an image over two pages, and a
  device that acknowledges the first erase and refuses the second.\<close>

definition sample_hex :: string where
  "sample_hex = '':020000040800F2'' @ [CHR 0x0A] @ '':0400000001020304F2'' @ [CHR 0x0A] @ '':00000001FF''"

definition two_page_image :: memory where
  "two_page_image = [(Num 0x08000000, Num 0xAA), (Num 0x08000800, Num 0xBB)]"

definition nack_second_erase :: world where
  "nack_second_erase = \<lparr>now = 0, reads = [(0, [0x79]), (0, [0x79]), (0, [0x79]), (0, [0x1F])], trace = []\<rparr>"

text \<open>The byte sequences written to the serial line, in order.\<close>

fun transmissions :: "event list \<Rightarrow> byte list list" where
  "transmissions [] = []"
| "transmissions (Tx bs # es) = bs # transmissions es"
| "transmissions (_ # es) = transmissions es"

text \<open>
  One attempt of \<open>blSync\<close>: the first two statements of the loop body, with the result of
  \<open>readByte(500)\<close>. An attempt has failed when the read timed out or returned a byte that is
  not ACK; \<open>after_failed\<close> is the world after the \<open>sleep(100)\<close> that follows. \<open>failed_round\<close> is
  what a failed attempt adds to the trace.
\<close>

definition sync_attempt :: "world \<Rightarrow> number result \<times> world" where
  "sync_attempt w = readByte 500 (snd (writeBytes [Num 0x7F] w))"

definition attempt_failed :: "world \<Rightarrow> bool" where
  "attempt_failed w =
     (case fst (sync_attempt w) of
        Ok r \<Rightarrow> r \<noteq> ACK
      | Throw _ \<Rightarrow> True
      | Blocked \<Rightarrow> False)"

definition after_failed :: "world \<Rightarrow> world" where
  "after_failed w = snd (sleep 100 (snd (sync_attempt w)))"

definition failed_round :: "event list" where
  "failed_round = [Tx [0x7F], RxWait 500, Sleep 100]"

text \<open>
  Devices to synchronise with. One lets a read resolve empty after 600 ms, then answers NACK,
  then ACK. One lets five reads resolve empty, each after 600 ms. One is silent: it sends
  nothing, so no \<open>reader.read()\<close> ever resolves. One answers ACK after 10 seconds.
\<close>

definition flaky_device :: world where
  "flaky_device = \<lparr>now = 0, reads = [(600, []), (3, [0x1F]), (3, [0x79])], trace = []\<rparr>"

definition empty_reads_device :: world where
  "empty_reads_device = \<lparr>now = 0, reads = replicate 5 (600, []), trace = []\<rparr>"

definition silent_device :: world where
  "silent_device = \<lparr>now = 0, reads = [], trace = []\<rparr>"

definition late_device :: world where
  "late_device = \<lparr>now = 0, reads = [(10000, [0x79])], trace = []\<rparr>"

text \<open>
  The outcome of \<open>parseHex\<close> as a call. The specification names two errors for parsing.
  \<open>parseHex\<close> has no \<open>throw\<close>, and \<open>split\<close>, \<open>startsWith\<close>, \<open>substr\<close>, \<open>parseInt\<close> and
  \<open>Map.set\<close> throw on no string and no number: every call returns the image.
\<close>

datatype parse_error = FormatError | ChecksumError


section \<open>Intel HEX texts\<close>



text \<open>
  The text of a record: the marker, then length, offset (high byte first), type, payload
  and checksum, each byte as two hex digits, in upper or in lower case. The checksum makes
  the sum of all bytes of the record 0 modulo 256. A text is its records, each followed by
  the end of line.
\<close>

definition hex_char :: "bool \<Rightarrow> nat \<Rightarrow> char" where
  "hex_char lower n = (if lower then ''0123456789abcdef'' else ''0123456789ABCDEF'') ! n"

definition nibbles :: "nat \<Rightarrow> nat list" where
  "nibbles b = [b div 16, b mod 16]"

definition hex_byte :: "bool \<Rightarrow> nat \<Rightarrow> string" where
  "hex_byte lower b = map (hex_char lower) (nibbles b)"
















section \<open>Properties of the checksums\<close>

subsection \<open>Bitwise operators on values in range\<close>

lemma signed_take_bit_xor_int:
  "signed_take_bit n (a XOR b) = signed_take_bit n a XOR signed_take_bit n (b::int)"
  by (rule bit_eqI) (auto simp add: bit_simps)

lemma to_int32_idem: "signed_take_bit 31 (to_int32 a) = to_int32 a"
  by (cases a) simp_all

lemma to_int32_js_xor: "to_int32 (js_xor a b) = to_int32 a XOR to_int32 b"
  by (simp add: js_xor_def signed_take_bit_xor_int to_int32_idem)

lemma int32_self:
  "- 2147483648 \<le> k \<Longrightarrow> k < 2147483648 \<Longrightarrow> signed_take_bit 31 (k::int) = k"
  by (rule signed_take_bit_int_eq_self) simp_all

lemma uint_byte_bound: "uint (w::byte) < 256"
  using uint_lt2p [of w] by simp

lemma uint_byte_int32: "signed_take_bit 31 (uint (w::byte)) = uint w"
proof -
  have "0 \<le> uint w" "uint w < 256" by (simp_all add: uint_byte_bound)
  then show ?thesis by (intro int32_self) linarith+
qed

lemma and_255_int32: "signed_take_bit 31 x AND 255 = take_bit 8 (x::int)"
proof -
  have "signed_take_bit 31 x AND mask 8 = take_bit 8 (signed_take_bit 31 x)"
    by (simp only: take_bit_eq_mask)
  also have "\<dots> = take_bit 8 x"
    by (simp add: take_bit_signed_take_bit)
  finally show ?thesis by (simp add: mask_eq_exp_minus_1)
qed

lemma js_and_255: "js_and (Num x) (Num 0xFF) = Num (take_bit 8 x)"
proof -
  have "signed_take_bit 31 (255::int) = 255" by simp
  then show ?thesis unfolding js_and_def to_int32.simps by (simp only: and_255_int32)
qed

subsection \<open>The exclusive-or checksum\<close>

lemma to_int32_foldl_js_xor:
  "to_int32 (foldl js_xor a bs) = foldl (XOR) (to_int32 a) (map to_int32 bs)"
  by (induction bs arbitrary: a) (simp_all add: to_int32_js_xor)

lemma xorChecksum_Num: "xorChecksum bs = Num (to_int32 (xorChecksum bs))"
proof (induction bs rule: rev_induct)
  case Nil
  show ?case by (simp add: xorChecksum_def)
next
  case (snoc b bs)
  show ?case
    by (simp add: xorChecksum_def js_xor_def signed_take_bit_xor_int to_int32_idem)
qed

lemma xorChecksum_alt: "xorChecksum bs = Num (foldl (XOR) 0 (map to_int32 bs))"
  using xorChecksum_Num [of bs] to_int32_foldl_js_xor [of "Num 0" bs]
  by (simp add: xorChecksum_def)

lemma foldl_xor_shift: "foldl (XOR) (a XOR x) xs = foldl (XOR) a xs XOR (x::int)"
proof (induction xs arbitrary: a)
  case Nil
  show ?case by simp
next
  case (Cons y ys)
  have "(a XOR x) XOR y = (a XOR y) XOR x" by (simp add: ac_simps)
  then show ?case using Cons [of "a XOR y"] by simp
qed

lemma foldl_xor_rev: "foldl (XOR) (a::int) (rev xs) = foldl (XOR) a xs"
  by (induction xs arbitrary: a) (simp_all add: foldl_xor_shift)

lemma calcChecksum_loop_foldl: "calcChecksum_loop res bs = foldl js_xor res bs"
  by (induction bs arbitrary: res) simp_all

text \<open>
  Claim C9. For every list of numbers (so for every list of bytes), the checksum of the
  reversed list is the checksum of the list, and the list with its checksum appended has
  checksum 0. The loop of \<open>calcChecksum\<close> computes the same value as the \<open>reduce\<close> of
  \<open>xorChecksum\<close>.
\<close>

theorem xorChecksum_reverse_and_self_inverse:
  "xorChecksum (rev bytes) = xorChecksum bytes \<and>
   xorChecksum (bytes @ [xorChecksum bytes]) = Num 0 \<and>
   calcChecksum bytes = xorChecksum bytes"
proof -
  have "xorChecksum (rev bytes) = xorChecksum bytes"
    by (simp add: xorChecksum_alt rev_map [symmetric] foldl_xor_rev)
  moreover have "xorChecksum (bytes @ [xorChecksum bytes]) = Num 0"
    by (simp add: xorChecksum_def js_xor_def)
  moreover have "calcChecksum bytes = xorChecksum bytes"
    by (simp add: calcChecksum_def xorChecksum_def calcChecksum_loop_foldl)
  ultimately show ?thesis by simp
qed

subsection \<open>The CRC\<close>

lemma shl1_int32: "signed_take_bit 31 (push_bit 1 (uint (w::byte))) = push_bit 1 (uint w)"
proof -
  have "0 \<le> uint w" "uint w < 256" by (simp_all add: uint_byte_bound)
  moreover have "push_bit 1 (uint w) = 2 * uint w" by (simp add: push_bit_eq_mult)
  ultimately show ?thesis by (intro int32_self) linarith+
qed

lemma top_bit_byte: "signed_take_bit 31 (uint (w::byte)) AND 128 \<noteq> 0 \<longleftrightarrow> bit w 7"
proof -
  have "uint w AND 2 ^ 7 \<noteq> 0 \<longleftrightarrow> bit (uint w) 7"
    by (simp only: and_exp_eq_0_iff_not_bit) simp
  then show ?thesis by (simp add: uint_byte_int32 bit_uint_iff)
qed

lemma uint_shl1_byte: "uint (push_bit 1 (w::byte)) = take_bit 8 (push_bit 1 (uint w))"
  by (simp only: unsigned_push_bit_eq) simp

lemma js_shl_byte: "js_shl (byte_num w) 1 = Num (push_bit 1 (uint w))"
  unfolding js_shl_def byte_num_def to_int32.simps uint_byte_int32
  by (simp only: shl1_int32 mod_less)

lemma top_bit_truthy: "truthy (js_and (byte_num w) (Num 0x80)) \<longleftrightarrow> bit w 7"
proof -
  have "signed_take_bit 31 (128::int) = 128" by simp
  then show ?thesis
    unfolding js_and_def byte_num_def to_int32.simps truthy.simps
    using top_bit_byte [of w] by (simp only:)
qed

lemma js_xor_213:
  "js_xor (Num (push_bit 1 (uint (w::byte)))) (Num 0xD5) = Num (push_bit 1 (uint w) XOR 0xD5)"
proof -
  have "signed_take_bit 31 (213::int) = 213" by simp
  then show ?thesis unfolding js_xor_def to_int32.simps by (simp only: shl1_int32)
qed

lemma crc_round_byte: "crc_round (byte_num w) = byte_num (crc8_shift w)"
proof (cases "bit w 7")
  case True
  have "take_bit 8 (push_bit 1 (uint w) XOR 213) = uint (push_bit 1 w XOR 213)"
    by (simp only: uint_xor uint_shl1_byte take_bit_xor) simp
  moreover have "crc_round (byte_num w) = Num (take_bit 8 (push_bit 1 (uint w) XOR 213))"
    using True
    by (simp only: crc_round_def top_bit_truthy js_shl_byte js_xor_213 js_and_255 if_True)
  ultimately show ?thesis using True by (simp only: crc8_shift_def byte_num_def if_True)
next
  case False
  have "crc_round (byte_num w) = Num (take_bit 8 (push_bit 1 (uint w)))"
    using False by (simp only: crc_round_def top_bit_truthy js_shl_byte js_and_255 if_False)
  then show ?thesis
    using False by (simp only: crc8_shift_def byte_num_def if_False uint_shl1_byte)
qed

lemma crc_rounds_unfold: "crc_rounds 0 crc = (crc_round ^^ 8) crc"
  by (simp add: numeral_eq_Suc funpow_swap1)

lemma crc_funpow_byte: "(crc_round ^^ n) (byte_num w) = byte_num ((crc8_shift ^^ n) w)"
  by (induction n) (simp_all add: crc_round_byte)

lemma js_xor_byte: "js_xor (byte_num a) (byte_num b) = byte_num (a XOR b)"
  by (simp add: js_xor_def byte_num_def uint_byte_int32 uint_xor)

lemma mspCrc8D5_loop_byte:
  "mspCrc8D5_loop (byte_num acc) (map byte_num bs) =
   byte_num (foldl (\<lambda>acc b. (crc8_shift ^^ 8) (acc XOR b)) acc bs)"
  by (induction bs arbitrary: acc)
    (simp_all only: mspCrc8D5_loop.simps list.map foldl.simps js_xor_byte crc_rounds_unfold
      crc_funpow_byte)

text \<open>
  Claim C8. On every list of bytes \<open>mspCrc8D5\<close> returns the CRC-8 the specification
  describes (\<open>crc8_d5\<close>: polynomial 0xD5, most significant bit first, initial value 0, no
  reflection, no final exclusive-or). On the empty list it returns 0, and there are two
  different bytes whose order changes it.
\<close>

theorem mspCrc8D5_is_crc8_d5:
  "mspCrc8D5 (map byte_num bytes) = byte_num (crc8_d5 bytes) \<and>
   mspCrc8D5 [] = Num 0 \<and>
   (\<exists>a b. a \<noteq> b \<and>
      mspCrc8D5 [byte_num a, byte_num b] \<noteq> mspCrc8D5 [byte_num b, byte_num a])"
proof -
  have 1: "mspCrc8D5 (map byte_num bs) = byte_num (crc8_d5 bs)" for bs
    using mspCrc8D5_loop_byte [of 0 bs] by (simp add: mspCrc8D5_def crc8_d5_def byte_num_def)
  have 2: "mspCrc8D5 [] = Num 0"
    by (simp add: mspCrc8D5_def)
  have "crc8_d5 [1, 2] = 116" "crc8_d5 [2, 1] = 195"
    by code_simp+
  then have "mspCrc8D5 [byte_num 1, byte_num 2] \<noteq> mspCrc8D5 [byte_num 2, byte_num 1]"
    using 1 [of "[1, 2]"] 1 [of "[2, 1]"] by (simp add: byte_num_def)
  moreover have "(1::byte) \<noteq> 2"
    by simp
  ultimately have 3: "\<exists>a b. a \<noteq> b \<and>
      mspCrc8D5 [byte_num a, byte_num b] \<noteq> mspCrc8D5 [byte_num b, byte_num a]"
    by blast
  from 1 2 3 show ?thesis by blast
qed

section \<open>The erase range\<close>

lemma foldl_lowest_Num:
  "foldl (\<lambda>lowest x. if js_lt x lowest then x else lowest) (Num m) (map Num ks) = Num (fold min ks m)"
  by (induction ks arbitrary: m) (simp_all add: min_def)

lemma foldl_highest_Num:
  "foldl (\<lambda>highest x. if js_lt highest x then x else highest) (Num m) (map Num ks) = Num (fold max ks m)"
  by (induction ks arbitrary: m) (simp_all add: max_def)

lemma Math_min_Num:
  "ks \<noteq> [] \<Longrightarrow> length ks \<le> max_args \<Longrightarrow>
   Math_min max_args (map Num ks) = Inr (Num (Min (set ks)))"
proof (cases ks)
  case Nil
  then show "ks \<noteq> [] \<Longrightarrow> ?thesis" by simp
next
  case (Cons k ks')
  assume "length ks \<le> max_args"
  moreover have "NaN \<notin> set (map Num ks)" by auto
  ultimately show ?thesis
    using foldl_lowest_Num [of k ks'] Min.set_eq_fold [of k ks']
    by (simp add: Cons Math_min_def del: set_map)
qed

lemma Math_max_Num:
  "ks \<noteq> [] \<Longrightarrow> length ks \<le> max_args \<Longrightarrow>
   Math_max max_args (map Num ks) = Inr (Num (Max (set ks)))"
proof (cases ks)
  case Nil
  then show "ks \<noteq> [] \<Longrightarrow> ?thesis" by simp
next
  case (Cons k ks')
  assume "length ks \<le> max_args"
  moreover have "NaN \<notin> set (map Num ks)" by auto
  ultimately show ?thesis
    using foldl_highest_Num [of k ks'] Max.set_eq_fold [of k ks']
    by (simp add: Cons Math_max_def del: set_map)
qed

lemma page_index_div: "page_index (Num a) = Num ((a - 0x08000000) div 2048)"
proof -
  have "\<lfloor>(real_of_int a - real_of_int 134217728) / real_of_int 2048\<rfloor> = (a - 134217728) div 2048"
    using floor_divide_of_int_eq [of "a - 134217728" 2048, where ?'a = real] by simp
  then show ?thesis by (simp add: FLASH_BASE_def PAGE_SIZE_def)
qed

text \<open>
  The erase range where the two spread calls return. For every image that is not empty,
  whose keys are addresses (integers) and are no more than the engine accepts as
  arguments, \<open>startPage = floor((minAddr - 0x08000000) / 2048)\<close> and
  \<open>endPage = floor((maxAddr - 0x08000000) / 2048)\<close>, where \<open>minAddr\<close> and \<open>maxAddr\<close> are the
  least and the greatest key; when the keys are exactly the addresses 0x08000000 to
  0x080007FF both are 0.
\<close>

lemma erase_range_formula:
  assumes "map fst mem = map Num ks" and "ks \<noteq> []" and "length ks \<le> max_args"
  shows "startPage max_args mem = Inr (Num \<lfloor>(real_of_int (Min (set ks)) - 0x08000000) / 2048\<rfloor>) \<and>
         endPage max_args mem = Inr (Num \<lfloor>(real_of_int (Max (set ks)) - 0x08000000) / 2048\<rfloor>) \<and>
         (set ks = {0x08000000 .. 0x080007FF} \<longrightarrow>
            startPage max_args mem = Inr (Num 0) \<and> endPage max_args mem = Inr (Num 0))"
proof -
  have lo: "minAddr max_args mem = Inr (Num (Min (set ks)))"
    and hi: "maxAddr max_args mem = Inr (Num (Max (set ks)))"
    using assms by (simp_all add: minAddr_def maxAddr_def Math_min_Num Math_max_Num)
  have 1: "startPage max_args mem = Inr (Num \<lfloor>(real_of_int (Min (set ks)) - 0x08000000) / 2048\<rfloor>)"
    by (simp add: startPage_def lo hi FLASH_BASE_def PAGE_SIZE_def)
  have 2: "endPage max_args mem = Inr (Num \<lfloor>(real_of_int (Max (set ks)) - 0x08000000) / 2048\<rfloor>)"
    by (simp add: endPage_def lo hi FLASH_BASE_def PAGE_SIZE_def)
  have 3: "startPage max_args mem = Inr (Num 0) \<and> endPage max_args mem = Inr (Num 0)"
    if "set ks = {0x08000000 .. 0x080007FF}"
  proof -
    have "Min {0x08000000 .. 0x080007FF::int} = 0x08000000"
      by (rule Min_eqI) simp_all
    moreover have "Max {0x08000000 .. 0x080007FF::int} = 0x080007FF"
      by (rule Max_eqI) simp_all
    ultimately have "Min (set ks) = 0x08000000" "Max (set ks) = 0x080007FF"
      by (simp_all add: that)
    then show ?thesis
      by (simp add: startPage_def endPage_def lo hi page_index_div del: page_index.simps)
  qed
  from 1 2 3 show ?thesis by blast
qed

lemma erase_range_one_page:
  "startPage 125951 (map (\<lambda>a. (Num a, Num 0xFF)) [0x08000000 .. 0x080007FF]) = Inr (Num 0) \<and>
   endPage 125951 (map (\<lambda>a. (Num a, Num 0xFF)) [0x08000000 .. 0x080007FF]) = Inr (Num 0)"
proof -
  have a: "map fst (map (\<lambda>a. (Num a, Num 0xFF)) [0x08000000 .. 0x080007FF]) = map Num [0x08000000 .. 0x080007FF]"
    by (simp only: map_map comp_def fst_conv)
  have b: "[0x08000000 .. 0x080007FF] \<noteq> ([]::int list)"
    by (simp only: upto_Nil)
  have c: "set [0x08000000 .. 0x080007FF] = {0x08000000 .. 0x080007FF::int}"
    by (rule set_upto)
  have d: "length [0x08000000 .. 0x080007FF::int] \<le> 125951"
    by (simp only: length_upto)
  from erase_range_formula [OF a b d] c show ?thesis by blast
qed

lemma Math_min_too_many: "max_args < length xs \<Longrightarrow> Math_min max_args xs = Inl RangeError"
  by (simp add: Math_min_def)

lemma flashImage_too_many:
  "max_args < length mem \<Longrightarrow> flashImage max_args mem w = (Throw RangeError, w)"
  by (simp add: flashImage_def minAddr_def Math_min_too_many io_throw_def)

lemma flash_too_many_keys:
  "max_args < length (parseHex hexText) \<Longrightarrow> flash max_args hexText w = (Throw RangeError, w)"
  by (simp add: flash_def flashImage_too_many)

lemma length_firmware_123k: "length firmware_123k = 125952"
  unfolding firmware_123k_def by (simp only: length_map length_upto)

text \<open>
  Claim C1. The claim gives the erase range for every image that is not empty. The code
  does not: for an image of 125952 bytes (the addresses 0x08000000 to 0x0801EBFF, a firmware
  of 123 KiB) in an engine that accepts 125951 arguments, \<open>Math.min(...addrs)\<close> throws a
  \<open>RangeError\<close>; \<open>flash\<close> ends there with that error, whatever the device does, and there is
  no \<open>startPage\<close> and no \<open>endPage\<close>.
\<close>

theorem erase_range_too_many_keys:
  "length firmware_123k = 125952 \<and>
   startPage 125951 firmware_123k = Inl RangeError \<and>
   endPage 125951 firmware_123k = Inl RangeError \<and>
   flashImage 125951 firmware_123k w = (Throw RangeError, w)"
proof -
  have l: "125951 < length firmware_123k"
    by (simp only: length_firmware_123k)
  then have "125951 < length (map fst firmware_123k)" by simp
  then have m: "minAddr 125951 firmware_123k = Inl RangeError"
    unfolding minAddr_def by (rule Math_min_too_many)
  from l m length_firmware_123k show ?thesis
    by (simp add: startPage_def endPage_def flashImage_too_many)
qed

declare chunks.simps [simp del] fill_chunk.simps [simp del] eraseLoop.simps [simp del] writeLoop.simps [simp del]


section \<open>What the bootloader client adds to the trace\<close>

lemma addsI: "(\<And>w. \<exists>evs. trace (snd (m w)) = trace w @ evs \<and> P (fst (m w)) evs) \<Longrightarrow> adds m P"
  by (simp add: adds_def)

lemma addsD: "adds m P \<Longrightarrow> \<exists>evs. trace (snd (m w)) = trace w @ evs \<and> P (fst (m w)) evs"
  by (simp add: adds_def)

lemma adds_weaken: "adds m P \<Longrightarrow> (\<And>r evs. P r evs \<Longrightarrow> Q r evs) \<Longrightarrow> adds m Q"
  unfolding adds_def by blast

lemma adds_return: "adds (io_return x) wire"
  by (simp add: adds_def io_return_def wire_def)

lemma adds_throw: "channel_error e \<Longrightarrow> adds (io_throw e) wire"
  by (simp add: adds_def io_throw_def wire_def)

lemma adds_bind_wire:
  assumes "adds m wire" and "\<And>x. adds (f x) wire"
  shows "adds (io_bind m f) wire"
proof (rule addsI)
  fix w
  obtain r w1 where m: "m w = (r, w1)" by (cases "m w")
  from addsD [OF assms(1), of w] m obtain e1
    where e1: "trace w1 = trace w @ e1" "list_all is_wire e1" "channel_result r"
    by (auto simp add: wire_def)
  show "\<exists>evs. trace (snd (io_bind m f w)) = trace w @ evs \<and> wire (fst (io_bind m f w)) evs"
  proof (cases r)
    case (Ok x)
    from addsD [OF assms(2), of x w1] obtain e2
      where "trace (snd (f x w1)) = trace w1 @ e2" "list_all is_wire e2"
        "channel_result (fst (f x w1))"
      by (auto simp add: wire_def)
    with e1 m Ok show ?thesis
      by (auto simp add: io_bind_def wire_def)
  next
    case (Throw e)
    with e1 m show ?thesis by (auto simp add: io_bind_def wire_def)
  next
    case Blocked
    with e1 m show ?thesis by (auto simp add: io_bind_def wire_def)
  qed
qed

lemma adds_writeBytes: "adds (writeBytes bs) wire"
  by (simp add: adds_def writeBytes_def record_event_def wire_def)

lemma readByte_loop_result: "channel_result (fst (readByte_loop start timeout t rs))"
  by (induction start timeout t rs rule: readByte_loop.induct) (simp_all split: list.splits)

lemma adds_readByte: "adds (readByte t) wire"
proof (rule addsI)
  fix w :: world
  obtain r t' rs where l: "readByte_loop (now w) t (now w) (reads w) = (r, t', rs)"
    by (cases "readByte_loop (now w) t (now w) (reads w)")
  with readByte_loop_result [of "now w" t "now w" "reads w"] have "channel_result r" by simp
  with l show "\<exists>evs. trace (snd (readByte t w)) = trace w @ evs \<and> wire (fst (readByte t w)) evs"
    by (simp add: readByte_def wire_def)
qed

lemma adds_sleep: "adds (sleep t) wire"
  by (simp add: adds_def sleep_def wire_def)

lemma adds_waitAck: "adds waitAck wire"
  unfolding waitAck_def
  by (intro adds_bind_wire adds_readByte) (simp add: adds_return adds_throw)

lemma adds_blSendCmd: "adds (blSendCmd c) wire"
  unfolding blSendCmd_def
  by (intro adds_bind_wire adds_writeBytes adds_waitAck)

lemma adds_erase_rest:
  "adds (io_bind (blSendCmd (Num 0x44)) (\<lambda>acked.
       if \<not> acked then io_return False
       else
         let payload = [Num 0x00, Num 0x00, js_and (js_shr page 8) (Num 0xFF),
                        js_and page (Num 0xFF)]
         in io_bind (writeBytes payload) (\<lambda>_.
            io_bind (writeBytes [xorChecksum payload]) (\<lambda>_. waitAck)))) wire"
  by (intro adds_bind_wire adds_blSendCmd)
    (simp add: Let_def adds_return adds_bind_wire adds_writeBytes adds_waitAck)

lemma bind_record_event:
  "io_bind (record_event e) f w = f () (w\<lparr>trace := trace w @ [e]\<rparr>)"
  by (simp add: io_bind_def record_event_def)

lemma blErasePage_trace:
  "\<exists>evs. trace (snd (blErasePage p w)) = trace w @ EraseCall p # evs \<and> list_all is_wire evs \<and>
     channel_result (fst (blErasePage p w))"
  using addsD [OF adds_erase_rest, of p "w\<lparr>trace := trace w @ [EraseCall p]\<rparr>"]
  by (auto simp add: blErasePage_def wire_def bind_record_event)

lemma adds_write_rest:
  "adds (io_bind (blSendCmd (Num 0x31)) (\<lambda>acked.
       if \<not> acked then io_return False
       else
         let addrBytes = [js_and (js_shr addr 24) (Num 0xFF), js_and (js_shr addr 16) (Num 0xFF),
                          js_and (js_shr addr 8) (Num 0xFF), js_and addr (Num 0xFF)]
         in io_bind (writeBytes addrBytes) (\<lambda>_.
            io_bind (writeBytes [xorChecksum addrBytes]) (\<lambda>_.
            io_bind waitAck (\<lambda>acked2.
              if \<not> acked2 then io_return False
              else
                let payload = Num (int (length data) - 1) # data
                in io_bind (writeBytes payload) (\<lambda>_.
                   io_bind (writeBytes [xorChecksum payload]) (\<lambda>_. waitAck))))))) wire"
  by (intro adds_bind_wire adds_blSendCmd)
    (simp add: Let_def adds_return adds_bind_wire adds_writeBytes adds_waitAck)

lemma blWrite_trace:
  "\<exists>evs. trace (snd (blWrite a d w)) = trace w @ WriteCall a d # evs \<and> list_all is_wire evs \<and>
     channel_result (fst (blWrite a d w))"
  using addsD [OF adds_write_rest, of a d "w\<lparr>trace := trace w @ [WriteCall a d]\<rparr>"]
  by (auto simp add: blWrite_def wire_def bind_record_event)

lemma write_calls_append: "write_calls (xs @ ys) = write_calls xs @ write_calls ys"
  by (induction xs rule: write_calls.induct) simp_all

lemma erase_calls_append: "erase_calls (xs @ ys) = erase_calls xs @ erase_calls ys"
  by (induction xs rule: erase_calls.induct) simp_all

lemma wire_no_calls: "list_all is_wire evs \<Longrightarrow> write_calls evs = [] \<and> erase_calls evs = []"
  by (induction evs rule: write_calls.induct) simp_all

section \<open>The write loop and the erase loop\<close>

lemma fill_chunk_eq:
  "i < WRITE_CHUNK \<Longrightarrow> a \<le> hi \<Longrightarrow>
   fill_chunk mem hi i a c =
     (min hi (a + 31 - int i) + 1, c @ map (image_byte mem) [a .. min hi (a + 31 - int i)])"
proof (induction mem hi i a c rule: fill_chunk.induct)
  case (1 mem hi i addr chunk)
  let ?c = "chunk @ [image_byte mem addr]"
  define b where "b = min hi (addr + 31 - int i)"
  have unfold: "fill_chunk mem hi i addr chunk =
      (if addr + 1 > hi then (addr + 1, ?c) else fill_chunk mem hi (i + 1) (addr + 1) ?c)"
    using "1.prems"(1) by (subst fill_chunk.simps) (simp add: Let_def image_byte_def)
  show ?case
  proof (cases "addr + 1 > hi")
    case True
    with "1.prems" have "addr = hi" by simp
    then have "b = addr" using "1.prems"(1) by (simp add: b_def WRITE_CHUNK_def)
    with True unfold show ?thesis
      by (simp add: b_def [symmetric])
  next
    case False
    show ?thesis
    proof (cases "i + 1 < WRITE_CHUNK")
      case True
      have eq: "addr + 1 + 31 - int (i + 1) = addr + 31 - int i" by simp
      have "fill_chunk mem hi (i + 1) (addr + 1) ?c =
          (min hi (addr + 1 + 31 - int (i + 1)) + 1,
           ?c @ map (image_byte mem) [addr + 1 .. min hi (addr + 1 + 31 - int (i + 1))])"
        using "1.IH" [OF "1.prems"(1) refl refl False True] False
        by (simp add: image_byte_def)
      then have "fill_chunk mem hi (i + 1) (addr + 1) ?c =
          (b + 1, ?c @ map (image_byte mem) [addr + 1 .. b])"
        by (simp only: eq b_def)
      moreover have "[addr .. b] = addr # [addr + 1 .. b]"
        using False True by (subst upto_rec1) (simp_all add: WRITE_CHUNK_def b_def)
      ultimately show ?thesis
        using False unfold by (simp add: b_def [symmetric])
    next
      case F2: False
      with "1.prems" have i: "i = 31" by (simp add: WRITE_CHUNK_def)
      have "fill_chunk mem hi (i + 1) (addr + 1) ?c = (addr + 1, ?c)"
        by (subst fill_chunk.simps) (simp add: WRITE_CHUNK_def i)
      moreover have "b = addr" using False by (simp add: b_def i)
      ultimately show ?thesis
        using False unfold by (simp add: b_def [symmetric])
    qed
  qed
qed

lemma fill_chunk_first:
  assumes "a \<le> hi"
  shows "fill_chunk mem hi 0 a [] = (min hi (a + 31) + 1, map (image_byte mem) [a .. min hi (a + 31)])"
  using fill_chunk_eq [of 0 a hi mem "[]"] assms by (simp add: WRITE_CHUNK_def)

lemma writeLoop_step:
  assumes "a \<le> hi"
  shows "writeLoop mem hi a =
     io_bind (blWrite (Num a) (map (image_byte mem) [a .. min hi (a + 31)])) (\<lambda>written.
       if \<not> written then io_throw WriteFailed else writeLoop mem hi (min hi (a + 31) + 1))"
proof -
  have "min hi (a + 31) + 1 - int (length (map (image_byte mem) [a .. min hi (a + 31)])) = a"
    using assms by simp
  then show ?thesis
    using assms by (subst writeLoop.simps) (simp add: fill_chunk_first)
qed

lemma writeLoop_done: "\<not> a \<le> hi \<Longrightarrow> writeLoop mem hi a = io_return ()"
  by (subst writeLoop.simps) simp

lemma writeLoop_calls:
  "\<exists>evs. trace (snd (writeLoop mem hi a w)) = trace w @ evs \<and> erase_calls evs = [] \<and>
     prefix (write_calls evs) (chunks mem hi a) \<and>
     (fst (writeLoop mem hi a w) = Ok () \<longrightarrow> write_calls evs = chunks mem hi a) \<and>
     (\<forall>q. fst (writeLoop mem hi a w) \<noteq> Throw (EraseFailed q))"
proof (induction "nat (hi + 1 - a)" arbitrary: a w rule: less_induct)
  case less
  show ?case
  proof (cases "a \<le> hi")
    case False
    then show ?thesis
      by (simp add: writeLoop_done io_return_def chunks.simps [of mem hi a])
  next
    case True
    let ?d = "map (image_byte mem) [a .. min hi (a + 31)]"
    let ?a' = "min hi (a + 31) + 1"
    obtain r w1 where bw: "blWrite (Num a) ?d w = (r, w1)" by (cases "blWrite (Num a) ?d w")
    from blWrite_trace [of "Num a" ?d w] bw obtain e1
      where e1: "trace w1 = trace w @ WriteCall (Num a) ?d # e1" "list_all is_wire e1"
        "channel_result r" by auto
    have c1: "write_calls (WriteCall (Num a) ?d # e1) = [(Num a, ?d)]"
      "erase_calls (WriteCall (Num a) ?d # e1) = []"
      using wire_no_calls [OF e1(2)] by simp_all
    have ch: "chunks mem hi a = (Num a, ?d) # chunks mem hi (a + 32)"
      using True by (subst chunks.simps) simp
    have nxt: "chunks mem hi ?a' = chunks mem hi (a + 32)"
    proof (cases "a + 31 \<le> hi")
      case True
      then have "min hi (a + 31) + 1 = a + 32" by simp
      then show ?thesis by (simp only:)
    next
      case False
      then have "chunks mem hi (hi + 1) = []" "chunks mem hi (a + 32) = []"
        by (subst chunks.simps, simp)+
      with False show ?thesis by (simp add: min_def)
    qed
    show ?thesis
    proof (cases "r = Ok True")
      case False
      then have "fst (writeLoop mem hi a w) \<noteq> Ok () \<and> snd (writeLoop mem hi a w) = w1 \<and>
          (\<forall>q. fst (writeLoop mem hi a w) \<noteq> Throw (EraseFailed q))"
        using bw e1(3)
        by (cases r) (auto simp add: writeLoop_step [OF True] io_bind_def io_throw_def)
      with e1 c1 ch show ?thesis by (auto simp del: write_calls.simps erase_calls.simps)
    next
      case T2: True
      then have eq: "writeLoop mem hi a w = writeLoop mem hi ?a' w1"
        using bw by (simp add: writeLoop_step [OF True] io_bind_def)
      have "nat (hi + 1 - ?a') < nat (hi + 1 - a)" using True by simp
      from less [OF this, of w1] obtain e2 where e2:
        "trace (snd (writeLoop mem hi ?a' w1)) = trace w1 @ e2" "erase_calls e2 = []"
        "prefix (write_calls e2) (chunks mem hi ?a')"
        "fst (writeLoop mem hi ?a' w1) = Ok () \<longrightarrow> write_calls e2 = chunks mem hi ?a'"
        "\<forall>q. fst (writeLoop mem hi ?a' w1) \<noteq> Throw (EraseFailed q)"
        by blast
      have "trace (snd (writeLoop mem hi a w)) = trace w @ (WriteCall (Num a) ?d # e1) @ e2"
        using eq e1 e2 by simp
      moreover have "erase_calls ((WriteCall (Num a) ?d # e1) @ e2) = []"
        using c1 e2 by (simp only: erase_calls_append) simp
      moreover have "write_calls ((WriteCall (Num a) ?d # e1) @ e2) = (Num a, ?d) # write_calls e2"
        using c1 by (simp only: write_calls_append) simp
      ultimately show ?thesis
        using e2 ch nxt eq by (intro exI [of _ "(WriteCall (Num a) ?d # e1) @ e2"]) simp
    qed
  qed
qed

lemma writeLoop_abort:
  assumes "a \<le> hi" and "blWrite (Num a) (map (image_byte mem) [a .. min hi (a + 31)]) w = (Ok False, w1)"
  shows "writeLoop mem hi a w = (Throw WriteFailed, w1)"
  using assms by (simp add: writeLoop_step io_bind_def io_throw_def)

lemma eraseLoop_done: "\<not> p \<le> e \<Longrightarrow> eraseLoop p e = io_return ()"
  by (subst eraseLoop.simps) simp

lemma eraseLoop_step:
  "p \<le> e \<Longrightarrow> eraseLoop p e =
     io_bind (blErasePage (Num p)) (\<lambda>erased.
       if \<not> erased then io_throw (EraseFailed (Num p)) else eraseLoop (p + 1) e)"
  by (subst eraseLoop.simps) simp

lemma eraseLoop_calls:
  "\<exists>evs. trace (snd (eraseLoop p e w)) = trace w @ evs \<and> write_calls evs = [] \<and>
     prefix (erase_calls evs) (map Num [p .. e]) \<and>
     (fst (eraseLoop p e w) = Ok () \<longrightarrow> erase_calls evs = map Num [p .. e]) \<and>
     (\<forall>q. fst (eraseLoop p e w) = Throw (EraseFailed q) \<longrightarrow>
        erase_calls evs \<noteq> [] \<and> q = last (erase_calls evs))"
proof (induction "nat (e + 1 - p)" arbitrary: p w rule: less_induct)
  case less
  show ?case
  proof (cases "p \<le> e")
    case False
    then show ?thesis
      by (simp add: eraseLoop_done io_return_def)
  next
    case True
    obtain r w1 where be: "blErasePage (Num p) w = (r, w1)" by (cases "blErasePage (Num p) w")
    from blErasePage_trace [of "Num p" w] be obtain e1
      where e1: "trace w1 = trace w @ EraseCall (Num p) # e1" "list_all is_wire e1"
        "channel_result r" by auto
    have c1: "erase_calls (EraseCall (Num p) # e1) = [Num p]"
      "write_calls (EraseCall (Num p) # e1) = []"
      using wire_no_calls [OF e1(2)] by simp_all
    have up: "[p .. e] = p # [p + 1 .. e]"
      using True by (rule upto_rec1)
    show ?thesis
    proof (cases "r = Ok True")
      case False
      then have "fst (eraseLoop p e w) \<noteq> Ok () \<and> snd (eraseLoop p e w) = w1 \<and>
         (\<forall>q. fst (eraseLoop p e w) = Throw (EraseFailed q) \<longrightarrow> q = Num p)"
        using be e1(3)
        by (cases r) (auto simp add: eraseLoop_step [OF True] io_bind_def io_throw_def)
      with e1 c1 up show ?thesis
        by (intro exI [of _ "EraseCall (Num p) # e1"]) (auto simp del: erase_calls.simps write_calls.simps)
    next
      case T2: True
      then have eq: "eraseLoop p e w = eraseLoop (p + 1) e w1"
        using be by (simp add: eraseLoop_step [OF True] io_bind_def)
      have "nat (e + 1 - (p + 1)) < nat (e + 1 - p)" using True by simp
      from less [OF this, of w1] obtain e2 where e2:
        "trace (snd (eraseLoop (p + 1) e w1)) = trace w1 @ e2" "write_calls e2 = []"
        "prefix (erase_calls e2) (map Num [p + 1 .. e])"
        "fst (eraseLoop (p + 1) e w1) = Ok () \<longrightarrow> erase_calls e2 = map Num [p + 1 .. e]"
        "\<forall>q. fst (eraseLoop (p + 1) e w1) = Throw (EraseFailed q) \<longrightarrow>
           erase_calls e2 \<noteq> [] \<and> q = last (erase_calls e2)"
        by blast
      have "trace (snd (eraseLoop p e w)) = trace w @ (EraseCall (Num p) # e1) @ e2"
        using eq e1 e2 by simp
      moreover have "write_calls ((EraseCall (Num p) # e1) @ e2) = []"
        using c1 e2 by (simp only: write_calls_append) simp
      moreover have "erase_calls ((EraseCall (Num p) # e1) @ e2) = Num p # erase_calls e2"
        using c1 by (simp only: erase_calls_append) simp
      ultimately show ?thesis
        using e2 up eq by (intro exI [of _ "(EraseCall (Num p) # e1) @ e2"]) simp
    qed
  qed
qed

lemma chunks_lengths:
  "(a, d) \<in> set (chunks mem hi lo) \<Longrightarrow> 1 \<le> length d \<and> length d \<le> 32"
proof (induction mem hi lo rule: chunks.induct)
  case (1 mem hi lo)
  show ?case
  proof (cases "lo \<le> hi")
    case True
    with "1.prems" have "(a, d) = (Num lo, map (image_byte mem) [lo .. min hi (lo + 31)]) \<or>
        (a, d) \<in> set (chunks mem hi (lo + 32))"
      by (subst (asm) chunks.simps) simp
    then show ?thesis
    proof
      assume "(a, d) = (Num lo, map (image_byte mem) [lo .. min hi (lo + 31)])"
      with True show ?thesis by auto
    next
      assume "(a, d) \<in> set (chunks mem hi (lo + 32))"
      with "1.IH" [OF True] show ?thesis by simp
    qed
  next
    case False
    with "1.prems" show ?thesis by (subst (asm) chunks.simps) simp
  qed
qed

lemma chunks_contiguous: "contiguous lo (chunks mem hi lo)"
proof (induction mem hi lo rule: chunks.induct)
  case (1 mem hi lo)
  show ?case
  proof (cases "lo \<le> hi")
    case True
    show ?thesis
    proof (cases "lo + 31 \<le> hi")
      case T: True
      then have "lo + int (length (map (image_byte mem) [lo .. min hi (lo + 31)])) = lo + 32"
        by simp
      with "1.IH" [OF True] True show ?thesis
        by (subst chunks.simps) (simp del: length_map length_upto)
    next
      case False
      then have "chunks mem hi (lo + 32) = []" by (subst chunks.simps) simp
      with True show ?thesis by (subst chunks.simps) simp
    qed
  next
    case False
    then show ?thesis by (subst chunks.simps) simp
  qed
qed

lemma chunks_concat: "concat (map snd (chunks mem hi lo)) = map (image_byte mem) [lo .. hi]"
proof (induction mem hi lo rule: chunks.induct)
  case (1 mem hi lo)
  show ?case
  proof (cases "lo \<le> hi")
    case True
    show ?thesis
    proof (cases "lo + 31 \<le> hi")
      case T: True
      have "[lo .. hi] = [lo .. lo + 31] @ [lo + 31 + 1 .. hi]"
        using T by (intro upto_split2) simp_all
      moreover have "lo + 31 + 1 = lo + 32" by simp
      ultimately have "[lo .. hi] = [lo .. lo + 31] @ [lo + 32 .. hi]" by (simp only:)
      with "1.IH" [OF True] True T show ?thesis
        by (subst chunks.simps) (simp add: min_def)
    next
      case False
      then have "chunks mem hi (lo + 32) = []" by (subst chunks.simps) simp
      with True False show ?thesis by (subst chunks.simps) (simp add: min_def)
    qed
  next
    case False
    then show ?thesis by (subst chunks.simps) simp
  qed
qed

lemma page_index_shape: "page_index x = Num p \<Longrightarrow> \<exists>a. x = Num a"
  by (cases x) simp_all

lemma page_index_Num: "\<exists>p. page_index (Num a) = Num p"
  by simp

lemma erasePages_not_Num:
  "\<not> (\<exists>s e. x = Num s \<and> y = Num e) \<Longrightarrow> erasePages x y = io_return ()"
  by (cases x; cases y) simp_all

lemma writeChunks_not_Num:
  "\<not> (\<exists>lo hi. x = Num lo \<and> y = Num hi) \<Longrightarrow> writeChunks mem x y = io_return ()"
  by (cases x; cases y) simp_all

lemma flashImage_range:
  assumes "page_index (Num lo) = Num s" "page_index (Num hi) = Num e"
    and "minAddr max_args mem = Inr (Num lo)" "maxAddr max_args mem = Inr (Num hi)"
  shows "flashImage max_args mem = io_bind (eraseLoop s e) (\<lambda>_. writeLoop mem hi lo)"
proof -
  have "flashImage max_args mem =
      io_bind (erasePages (page_index (Num lo)) (page_index (Num hi))) (\<lambda>_.
        writeChunks mem (Num lo) (Num hi))"
    by (simp add: flashImage_def assms(3,4) del: page_index.simps)
  then show ?thesis
    by (simp only: assms(1,2) erasePages.simps writeChunks.simps)
qed

lemma flashImage_no_range:
  assumes "\<not> (\<exists>lo hi. minAddr max_args mem = Inr (Num lo) \<and> maxAddr max_args mem = Inr (Num hi))"
  shows "snd (flashImage max_args mem w) = w"
proof (cases "minAddr max_args mem")
  case (Inl e)
  then show ?thesis by (simp add: flashImage_def io_throw_def)
next
  case lo: (Inr lo)
  show ?thesis
  proof (cases "maxAddr max_args mem")
    case (Inl e)
    with lo show ?thesis by (simp add: flashImage_def io_throw_def)
  next
    case hi: (Inr hi)
    from assms lo hi have n: "\<not> (\<exists>a b. lo = Num a \<and> hi = Num b)" by simp
    then have "\<not> (\<exists>s e. page_index lo = Num s \<and> page_index hi = Num e)"
      using page_index_shape by blast
    with n lo hi show ?thesis
      by (simp add: flashImage_def erasePages_not_Num writeChunks_not_Num io_bind_def
          io_return_def del: page_index.simps)
  qed
qed

lemma flashImage_calls:
  assumes "page_index (Num lo) = Num s" "page_index (Num hi) = Num e"
    and "minAddr max_args mem = Inr (Num lo)" "maxAddr max_args mem = Inr (Num hi)"
  shows "\<exists>e1 e2. trace (snd (flashImage max_args mem w)) = trace w @ e1 @ e2 \<and>
     write_calls e1 = [] \<and> erase_calls e2 = [] \<and>
     prefix (erase_calls e1) (map Num [s .. e]) \<and>
     prefix (write_calls e2) (chunks mem hi lo) \<and>
     (e2 \<noteq> [] \<longrightarrow> erase_calls e1 = map Num [s .. e]) \<and>
     (fst (flashImage max_args mem w) = Ok () \<longrightarrow>
        erase_calls e1 = map Num [s .. e] \<and> write_calls e2 = chunks mem hi lo) \<and>
     (\<forall>q. fst (flashImage max_args mem w) = Throw (EraseFailed q) \<longrightarrow>
        e2 = [] \<and> erase_calls e1 \<noteq> [] \<and> q = last (erase_calls e1))"
proof -
  obtain r1 w1 where el: "eraseLoop s e w = (r1, w1)" by (cases "eraseLoop s e w")
  from eraseLoop_calls [of s e w] el obtain e1 where e1:
    "trace w1 = trace w @ e1" "write_calls e1 = []"
    "prefix (erase_calls e1) (map Num [s .. e])"
    "r1 = Ok () \<longrightarrow> erase_calls e1 = map Num [s .. e]"
    "\<forall>q. r1 = Throw (EraseFailed q) \<longrightarrow> erase_calls e1 \<noteq> [] \<and> q = last (erase_calls e1)"
    by auto
  show ?thesis
  proof (cases "r1 = Ok ()")
    case False
    then have "flashImage max_args mem w = (r1, w1)"
      using el by (cases r1) (simp_all add: flashImage_range [OF assms] io_bind_def)
    with e1 False show ?thesis
      by (intro exI [of _ e1] exI [of _ "[]"]) simp
  next
    case True
    then have fl: "flashImage max_args mem w = writeLoop mem hi lo w1"
      using el by (simp add: flashImage_range [OF assms] io_bind_def)
    from writeLoop_calls [of mem hi lo w1] obtain e2 where e2:
      "trace (snd (writeLoop mem hi lo w1)) = trace w1 @ e2" "erase_calls e2 = []"
      "prefix (write_calls e2) (chunks mem hi lo)"
      "fst (writeLoop mem hi lo w1) = Ok () \<longrightarrow> write_calls e2 = chunks mem hi lo"
      "\<forall>q. fst (writeLoop mem hi lo w1) \<noteq> Throw (EraseFailed q)"
      by blast
    with e1 True fl show ?thesis
      by (intro exI [of _ e1] exI [of _ e2]) simp
  qed
qed

lemma trace_new_events: "trace w' = trace w @ evs \<Longrightarrow> new_events w w' = evs"
  by (simp add: new_events_def)

lemma uint_to_uint8: "0 \<le> k \<Longrightarrow> k < 256 \<Longrightarrow> uint (to_uint8 (Num k)) = k"
proof -
  assume k: "0 \<le> k" "k < 256"
  have "uint (word_of_int k :: byte) = take_bit 8 k"
    by (simp only: unsigned_of_int) simp
  also have "\<dots> = k"
    using k by (intro take_bit_int_eq_self) simp_all
  finally show ?thesis by (simp only: to_uint8.simps)
qed

lemma uint_length_byte:
  assumes "1 \<le> length d" "length d \<le> 32"
  shows "uint (to_uint8 (Num (int (length d) - 1))) = int (length d) - 1"
  using assms by (intro uint_to_uint8) linarith+

text \<open>
  Claim C10. Every chunk that \<open>flash\<close> passes to \<open>blWrite\<close> has at least 1 and at most
  \<open>WRITE_CHUNK\<close> = 32 elements, and the length byte \<open>data.length - 1\<close> that \<open>blWrite\<close> sends
  for it is that number as a byte, without wrap-around. This holds for every text and every
  behaviour of the device.
\<close>

theorem flash_chunk_lengths:
  "\<forall>(a, d) \<in> set (write_calls (new_events w (snd (flash max_args hexText w)))).
     1 \<le> length d \<and> length d \<le> WRITE_CHUNK \<and>
     uint (to_uint8 (Num (int (length d) - 1))) = int (length d) - 1"
proof -
  define mem where "mem = parseHex hexText"
  have "1 \<le> length d \<and> length d \<le> 32"
    if "(a, d) \<in> set (write_calls (new_events w (snd (flashImage max_args mem w))))" for a d
  proof (cases "\<exists>lo hi. minAddr max_args mem = Inr (Num lo) \<and> maxAddr max_args mem = Inr (Num hi)")
    case False
    with that show ?thesis by (simp add: flashImage_no_range new_events_def)
  next
    case True
    then obtain lo hi where r: "minAddr max_args mem = Inr (Num lo)"
      "maxAddr max_args mem = Inr (Num hi)" by blast
    obtain s e where p: "page_index (Num lo) = Num s" "page_index (Num hi) = Num e"
      by simp
    from flashImage_calls [OF p r, of w] obtain e1 e2 where
      t: "trace (snd (flashImage max_args mem w)) = trace w @ e1 @ e2" and "write_calls e1 = []"
      and pre: "prefix (write_calls e2) (chunks mem hi lo)"
      by blast
    then have "write_calls (new_events w (snd (flashImage max_args mem w))) = write_calls e2"
      by (simp add: trace_new_events [OF t] write_calls_append)
    with that pre have "(a, d) \<in> set (chunks mem hi lo)"
      using set_mono_prefix by fastforce
    then show ?thesis by (rule chunks_lengths)
  qed
  then have "1 \<le> length d \<and> length d \<le> WRITE_CHUNK \<and>
      uint (to_uint8 (Num (int (length d) - 1))) = int (length d) - 1"
    if "(a, d) \<in> set (write_calls (new_events w (snd (flashImage max_args mem w))))" for a d
    using that uint_length_byte [of d] by (simp only: WRITE_CHUNK_def)
  then show ?thesis
    unfolding flash_def mem_def by blast
qed

theorem flash_chunk_lengths_witness:
  "(Num 0x08000000, [Num 1, Num 2, Num 3, Num 4])
     \<in> set (write_calls (new_events (ack_world 5) (snd (flash 125951 sample_hex (ack_world 5))))) \<and>
   1 \<le> length [Num 1, Num 2, Num 3, Num 4] \<and>
   length [Num 1, Num 2, Num 3, Num 4] \<le> WRITE_CHUNK \<and>
   uint (to_uint8 (Num (int (length [Num 1, Num 2, Num 3, Num 4]) - 1))) =
     int (length [Num 1, Num 2, Num 3, Num 4]) - 1"
proof -
  have p: "parseHex sample_hex =
      [(Num 0x08000000, Num 1), (Num 0x08000001, Num 2), (Num 0x08000002, Num 3),
       (Num 0x08000003, Num 4)]"
    by code_simp
  have lo: "minAddr 125951 (parseHex sample_hex) = Inr (Num 0x08000000)"
    and hi: "maxAddr 125951 (parseHex sample_hex) = Inr (Num 0x08000003)"
    by (simp_all add: minAddr_def maxAddr_def Math_min_def Math_max_def p)
  have fi: "flashImage 125951 (parseHex sample_hex) =
      io_bind (eraseLoop 0 0) (\<lambda>_. writeLoop (parseHex sample_hex) 0x08000003 0x08000000)"
    by (rule flashImage_range [OF _ _ lo hi]) (simp_all add: FLASH_BASE_def PAGE_SIZE_def)
  have m: "(Num 0x08000000, [Num 1, Num 2, Num 3, Num 4])
     \<in> set (write_calls (new_events (ack_world 5) (snd (flash 125951 sample_hex (ack_world 5)))))"
    unfolding flash_def fi by code_simp
  from flash_chunk_lengths [of "ack_world 5" 125951 sample_hex] m show ?thesis
    by blast
qed


lemma chunks_fixed_size: "fixed_size (chunks mem hi lo)"
proof (induction mem hi lo rule: chunks.induct)
  case (1 mem hi lo)
  show ?case
  proof (cases "lo \<le> hi")
    case True
    show ?thesis
    proof (cases "lo + 32 \<le> hi")
      case T: True
      then have "chunks mem hi (lo + 32) \<noteq> []"
        by (subst chunks.simps) simp
      then obtain c cs where c: "chunks mem hi (lo + 32) = c # cs"
        by (auto simp add: neq_Nil_conv)
      with "1.IH" [OF True] True T show ?thesis
        by (subst chunks.simps) (simp add: WRITE_CHUNK_def min_def)
    next
      case False
      then have "chunks mem hi (lo + 32) = []" by (subst chunks.simps) simp
      moreover have "1 \<le> nat (min hi (lo + 31) - lo + 1) \<and> nat (min hi (lo + 31) - lo + 1) \<le> 32"
        using True False by linarith
      ultimately show ?thesis
        using True by (subst chunks.simps) (simp add: WRITE_CHUNK_def)
    qed
  next
    case False
    then show ?thesis by (subst chunks.simps) simp
  qed
qed

text \<open>
  Claim C5. For an image whose least and greatest key are the addresses \<open>lo\<close> and \<open>hi\<close>, the
  calls of \<open>blWrite\<close> that \<open>flash\<close> makes are an initial part of the chunk list of the range
  from \<open>lo\<close> to \<open>hi\<close>, and all of it when \<open>flash\<close> returns. The chunk list starts at \<open>lo\<close>, each
  chunk starts right after the last byte of the one before, every chunk but the last has
  32 bytes, and together the chunks hold, for every address from \<open>lo\<close> to \<open>hi\<close> in ascending
  order, the byte of the image, or 0xFF where the image has no entry. When \<open>blWrite\<close>
  returns false for a chunk the loop throws "Write failed" at once.
\<close>

theorem write_chunks_ascending:
  assumes "minAddr max_args mem = Inr (Num lo)" and "maxAddr max_args mem = Inr (Num hi)"
  shows "prefix (write_calls (new_events w (snd (flashImage max_args mem w)))) (chunks mem hi lo) \<and>
    (fst (flashImage max_args mem w) = Ok () \<longrightarrow>
       write_calls (new_events w (snd (flashImage max_args mem w))) = chunks mem hi lo) \<and>
    contiguous lo (chunks mem hi lo) \<and> fixed_size (chunks mem hi lo) \<and>
    concat (map snd (chunks mem hi lo)) =
      map (\<lambda>a. case map_of mem (Num a) of Some v \<Rightarrow> v | None \<Rightarrow> Num 0xFF) [lo .. hi] \<and>
    (\<forall>a w1 w2. a \<le> hi \<longrightarrow>
       blWrite (Num a) (map (image_byte mem) [a .. min hi (a + 31)]) w1 = (Ok False, w2) \<longrightarrow>
       writeLoop mem hi a w1 = (Throw WriteFailed, w2))"
proof -
  obtain s e where p: "page_index (Num lo) = Num s" "page_index (Num hi) = Num e"
    by simp
  from flashImage_calls [OF p assms, of w] obtain e1 e2 where
    t: "trace (snd (flashImage max_args mem w)) = trace w @ e1 @ e2" and e1: "write_calls e1 = []"
    and pre: "prefix (write_calls e2) (chunks mem hi lo)"
    and ok: "fst (flashImage max_args mem w) = Ok () \<longrightarrow> write_calls e2 = chunks mem hi lo"
    by blast
  have w: "write_calls (new_events w (snd (flashImage max_args mem w))) = write_calls e2"
    using e1 by (simp add: trace_new_events [OF t] write_calls_append)
  have "image_byte mem = (\<lambda>a. case map_of mem (Num a) of Some v \<Rightarrow> v | None \<Rightarrow> Num 0xFF)"
    by (rule ext) (simp add: image_byte_def)
  then have c: "concat (map snd (chunks mem hi lo)) =
      map (\<lambda>a. case map_of mem (Num a) of Some v \<Rightarrow> v | None \<Rightarrow> Num 0xFF) [lo .. hi]"
    using chunks_concat [of mem hi lo] by simp
  from w pre ok c chunks_contiguous [of lo mem hi] chunks_fixed_size [of mem hi lo] writeLoop_abort
  show ?thesis by (simp only:) blast
qed

theorem write_chunks_ascending_witness:
  "write_calls (new_events (ack_world 8) (snd (flashImage 125951 gap_image (ack_world 8)))) =
     [(Num 0x08000000, Num 0x11 # Num 0x22 # replicate 30 (Num 0xFF)),
      (Num 0x08000020, [Num 0xFF, Num 0x33])] \<and>
   blWrite (Num 0x08000000) (Num 0x11 # Num 0x22 # replicate 30 (Num 0xFF))
       \<lparr>now = 0, reads = [(0, [0x1F])], trace = []\<rparr> =
     (Ok False, \<lparr>now = 0, reads = [], trace =
        [WriteCall (Num 0x08000000) (Num 0x11 # Num 0x22 # replicate 30 (Num 0xFF)),
         Tx [0x31, 0xCE], RxWait 2000]\<rparr>) \<and>
   writeLoop gap_image 0x08000021 0x08000000 \<lparr>now = 0, reads = [(0, [0x1F])], trace = []\<rparr> =
     (Throw WriteFailed, \<lparr>now = 0, reads = [], trace =
        [WriteCall (Num 0x08000000) (Num 0x11 # Num 0x22 # replicate 30 (Num 0xFF)),
         Tx [0x31, 0xCE], RxWait 2000]\<rparr>)"
proof -
  have lo: "minAddr 125951 gap_image = Inr (Num 0x08000000)"
    and hi: "maxAddr 125951 gap_image = Inr (Num 0x08000021)"
    by (simp_all add: minAddr_def maxAddr_def Math_min_def Math_max_def gap_image_def)
  have fi: "flashImage 125951 gap_image =
      io_bind (eraseLoop 0 0) (\<lambda>_. writeLoop gap_image 0x08000021 0x08000000)"
    by (rule flashImage_range [OF _ _ lo hi]) (simp_all add: FLASH_BASE_def PAGE_SIZE_def)
  have ok: "fst (flashImage 125951 gap_image (ack_world 8)) = Ok ()"
    unfolding fi by code_simp
  have ch: "chunks gap_image 0x08000021 0x08000000 =
     [(Num 0x08000000, Num 0x11 # Num 0x22 # replicate 30 (Num 0xFF)),
      (Num 0x08000020, [Num 0xFF, Num 0x33])]"
    by code_simp
  have le: "(0x08000000::int) \<le> 0x08000021" by simp
  have d: "map (image_byte gap_image) [0x08000000 .. min 0x08000021 (0x08000000 + 31)] =
      Num 0x11 # Num 0x22 # replicate 30 (Num 0xFF)"
    by code_simp
  have nack: "blWrite (Num 0x08000000) (Num 0x11 # Num 0x22 # replicate 30 (Num 0xFF))
       \<lparr>now = 0, reads = [(0, [0x1F])], trace = []\<rparr> =
     (Ok False, \<lparr>now = 0, reads = [], trace =
        [WriteCall (Num 0x08000000) (Num 0x11 # Num 0x22 # replicate 30 (Num 0xFF)),
         Tx [0x31, 0xCE], RxWait 2000]\<rparr>)"
    by code_simp
  from write_chunks_ascending [OF lo hi, of "ack_world 8"] ok ch le d nack
  show ?thesis by (simp only:)
qed

section \<open>Erasing before writing\<close>

lemma erase_second_fails:
  assumes "s < e" and "blErasePage (Num s) w = (Ok True, w1)"
    and "blErasePage (Num (s + 1)) w1 = (Ok False, w2)"
  shows "eraseLoop s e w = (Throw (EraseFailed (Num (s + 1))), w2)"
proof -
  have "eraseLoop s e w = eraseLoop (s + 1) e w1"
    using assms by (simp add: eraseLoop_step io_bind_def)
  also have "\<dots> = (Throw (EraseFailed (Num (s + 1))), w2)"
    using assms by (simp add: eraseLoop_step io_bind_def io_throw_def)
  finally show ?thesis .
qed

lemma range_of_pages:
  assumes "startPage max_args mem = Inr (Num s)" and "endPage max_args mem = Inr (Num e)"
  obtains lo hi where "minAddr max_args mem = Inr (Num lo)" "maxAddr max_args mem = Inr (Num hi)"
    "page_index (Num lo) = Num s" "page_index (Num hi) = Num e"
proof -
  from assms(1) obtain a b where a: "minAddr max_args mem = Inr a"
    and b: "maxAddr max_args mem = Inr b"
    unfolding startPage_def by (auto split: sum.splits)
  from assms a b have p: "page_index a = Num s" "page_index b = Num e"
    by (simp_all add: startPage_def endPage_def del: page_index.simps)
  then obtain lo hi where "a = Num lo" "b = Num hi"
    using page_index_shape by blast
  with a b p that show thesis by blast
qed

text \<open>
  Claim C6. For an image whose erase range is the pages \<open>s\<close> to \<open>e\<close>: the events of a run
  of \<open>flash\<close> split into a first part without a call of \<open>blWrite\<close> and a second without a
  call of \<open>blErasePage\<close>; the pages erased are an initial part of \<open>s, s + 1, ..., e\<close> and all
  of them once a write was attempted; when \<open>flash\<close> throws "Erase failed: page q", \<open>q\<close> is
  the page erased last and nothing was written. When \<open>blErasePage\<close> returns false for a page
  the loop throws for that page at once. When the first erase succeeds and the second
  returns false, \<open>flash\<close> throws "Erase failed" for page \<open>s + 1\<close> after exactly two calls of
  \<open>blErasePage\<close> and no call of \<open>blWrite\<close>; for an image that starts in page 0 that is page 1.
\<close>

theorem erase_before_write_and_abort:
  assumes "startPage max_args mem = Inr (Num s)" and "endPage max_args mem = Inr (Num e)"
  shows "(\<exists>e1 e2. new_events w (snd (flashImage max_args mem w)) = e1 @ e2 \<and>
            write_calls e1 = [] \<and> erase_calls e2 = [] \<and>
            prefix (erase_calls e1) (map Num [s .. e]) \<and>
            (write_calls e2 \<noteq> [] \<longrightarrow> erase_calls e1 = map Num [s .. e]) \<and>
            (\<forall>q. fst (flashImage max_args mem w) = Throw (EraseFailed q) \<longrightarrow>
               write_calls e2 = [] \<and> erase_calls e1 \<noteq> [] \<and> q = last (erase_calls e1))) \<and>
         (\<forall>p w1 w2. s \<le> p \<longrightarrow> p \<le> e \<longrightarrow> blErasePage (Num p) w1 = (Ok False, w2) \<longrightarrow>
            eraseLoop p e w1 = (Throw (EraseFailed (Num p)), w2)) \<and>
         (\<forall>w1 w2. s < e \<longrightarrow> blErasePage (Num s) w = (Ok True, w1) \<longrightarrow>
            blErasePage (Num (s + 1)) w1 = (Ok False, w2) \<longrightarrow>
            flashImage max_args mem w = (Throw (EraseFailed (Num (s + 1))), w2) \<and>
            erase_calls (new_events w w2) = [Num s, Num (s + 1)] \<and>
            write_calls (new_events w w2) = [])"
proof -
  from assms obtain lo hi where r: "minAddr max_args mem = Inr (Num lo)"
    "maxAddr max_args mem = Inr (Num hi)"
    and p: "page_index (Num lo) = Num s" "page_index (Num hi) = Num e"
    by (rule range_of_pages)
  from flashImage_calls [OF p r, of w] obtain e1 e2 where
    t: "trace (snd (flashImage max_args mem w)) = trace w @ e1 @ e2" and
    c: "write_calls e1 = []" "erase_calls e2 = []"
      "prefix (erase_calls e1) (map Num [s .. e])"
      "e2 \<noteq> [] \<longrightarrow> erase_calls e1 = map Num [s .. e]"
      "\<forall>q. fst (flashImage max_args mem w) = Throw (EraseFailed q) \<longrightarrow>
         e2 = [] \<and> erase_calls e1 \<noteq> [] \<and> q = last (erase_calls e1)"
    by blast
  have "new_events w (snd (flashImage max_args mem w)) = e1 @ e2"
    using t by (rule trace_new_events)
  moreover have "write_calls e2 \<noteq> [] \<longrightarrow> erase_calls e1 = map Num [s .. e]"
    using c(4) by auto
  moreover have "\<forall>q. fst (flashImage max_args mem w) = Throw (EraseFailed q) \<longrightarrow>
      write_calls e2 = [] \<and> erase_calls e1 \<noteq> [] \<and> q = last (erase_calls e1)"
    using c(5) by auto
  ultimately have 1: "\<exists>e1 e2. new_events w (snd (flashImage max_args mem w)) = e1 @ e2 \<and>
            write_calls e1 = [] \<and> erase_calls e2 = [] \<and>
            prefix (erase_calls e1) (map Num [s .. e]) \<and>
            (write_calls e2 \<noteq> [] \<longrightarrow> erase_calls e1 = map Num [s .. e]) \<and>
            (\<forall>q. fst (flashImage max_args mem w) = Throw (EraseFailed q) \<longrightarrow>
               write_calls e2 = [] \<and> erase_calls e1 \<noteq> [] \<and> q = last (erase_calls e1))"
    using c(1-3) by blast
  have 2: "eraseLoop p e w1 = (Throw (EraseFailed (Num p)), w2)"
    if "p \<le> e" "blErasePage (Num p) w1 = (Ok False, w2)" for p w1 w2
    using that by (simp add: eraseLoop_step io_bind_def io_throw_def)
  have 3: "flashImage max_args mem w = (Throw (EraseFailed (Num (s + 1))), w2) \<and>
            erase_calls (new_events w w2) = [Num s, Num (s + 1)] \<and>
            write_calls (new_events w w2) = []"
    if "s < e" "blErasePage (Num s) w = (Ok True, w1)"
      "blErasePage (Num (s + 1)) w1 = (Ok False, w2)" for w1 w2
  proof -
    have el: "eraseLoop s e w = (Throw (EraseFailed (Num (s + 1))), w2)"
      using that by (rule erase_second_fails)
    then have fl: "flashImage max_args mem w = (Throw (EraseFailed (Num (s + 1))), w2)"
      by (simp add: flashImage_range [OF p r] io_bind_def)
    from blErasePage_trace [of "Num s" w] that(2) obtain evs1 where
      a: "trace w1 = trace w @ EraseCall (Num s) # evs1" "list_all is_wire evs1" by auto
    from blErasePage_trace [of "Num (s + 1)" w1] that(3) obtain evs2 where
      b: "trace w2 = trace w1 @ EraseCall (Num (s + 1)) # evs2" "list_all is_wire evs2" by auto
    have "trace w2 = trace w @ (EraseCall (Num s) # evs1) @ (EraseCall (Num (s + 1)) # evs2)"
      using a b by simp
    then have "new_events w w2 = (EraseCall (Num s) # evs1) @ (EraseCall (Num (s + 1)) # evs2)"
      by (rule trace_new_events)
    with wire_no_calls [OF a(2)] wire_no_calls [OF b(2)] fl show ?thesis
      by (simp add: erase_calls_append write_calls_append)
  qed
  from 1 2 3 show ?thesis by blast
qed

theorem erase_before_write_and_abort_witness:
  "flashImage 125951 two_page_image nack_second_erase =
     (Throw (EraseFailed (Num 1)),
      \<lparr>now = 0, reads = [], trace =
         [EraseCall (Num 0), Tx [0x44, 0xBB], RxWait 2000, Tx [0, 0, 0, 0], Tx [0], RxWait 2000,
          EraseCall (Num 1), Tx [0x44, 0xBB], RxWait 2000, Tx [0, 0, 0, 1], Tx [1], RxWait 2000]\<rparr>) \<and>
   erase_calls (new_events nack_second_erase (snd (flashImage 125951 two_page_image nack_second_erase)))
     = [Num 0, Num 1] \<and>
   write_calls (new_events nack_second_erase (snd (flashImage 125951 two_page_image nack_second_erase)))
     = []"
proof -
  define w1 where "w1 = \<lparr>now = 0, reads = [(0, [0x79]), (0, [0x1F::byte])], trace =
         [EraseCall (Num 0), Tx [0x44, 0xBB], RxWait 2000, Tx [0, 0, 0, 0], Tx [0], RxWait 2000]\<rparr>"
  define w2 where "w2 = \<lparr>now = 0, reads = [] :: (nat \<times> byte list) list, trace =
         [EraseCall (Num 0), Tx [0x44, 0xBB], RxWait 2000, Tx [0, 0, 0, 0], Tx [0], RxWait 2000,
          EraseCall (Num 1), Tx [0x44, 0xBB], RxWait 2000, Tx [0, 0, 0, 1], Tx [1], RxWait 2000]\<rparr>"
  have s: "startPage 125951 two_page_image = Inr (Num 0)"
    and e: "endPage 125951 two_page_image = Inr (Num 1)"
    by (simp_all add: startPage_def endPage_def minAddr_def maxAddr_def Math_min_def
        Math_max_def two_page_image_def FLASH_BASE_def PAGE_SIZE_def)
  have a: "blErasePage (Num 0) nack_second_erase = (Ok True, w1)"
    unfolding w1_def by code_simp
  have b: "blErasePage (Num (0 + 1)) w1 = (Ok False, w2)"
    unfolding w1_def w2_def by code_simp
  have lt: "(0::int) < 1" by simp
  from erase_before_write_and_abort [OF s e, of nack_second_erase] lt a b
  have "flashImage 125951 two_page_image nack_second_erase = (Throw (EraseFailed (Num (0 + 1))), w2) \<and>
            erase_calls (new_events nack_second_erase w2) = [Num 0, Num (0 + 1)] \<and>
            write_calls (new_events nack_second_erase w2) = []"
    by blast
  then show ?thesis by (simp add: w2_def)
qed

section \<open>\<open>blWrite\<close> and the length of a chunk\<close>

lemma readByte_first:
  "reads w = (d, b # bs) # rest \<Longrightarrow> 0 < t \<Longrightarrow>
   readByte t w = (Ok (byte_num b), w\<lparr>now := now w + d, reads := rest, trace := trace w @ [RxWait t]\<rparr>)"
  by (simp add: readByte_def)

lemma waitAck_ack:
  "reads w = (d, 0x79 # bs) # rest \<Longrightarrow>
   waitAck w = (Ok True, w\<lparr>now := now w + d, reads := rest, trace := trace w @ [RxWait 2000]\<rparr>)"
  by (simp add: waitAck_def io_bind_def readByte_first io_return_def ACK_def byte_num_def)

lemma writeBytes_eq:
  "writeBytes bs w = (Ok (), w\<lparr>trace := trace w @ [Tx (map to_uint8 bs)]\<rparr>)"
  by (simp add: writeBytes_def record_event_def)

lemma cmd_0x31: "map to_uint8 [Num 0x31, js_xor (Num 0x31) (Num 0xFF)] = [0x31, 0xCE]"
  by code_simp

lemma blWrite_first_events:
  "\<exists>evs. trace (snd (blWrite addr data w)) = trace w @ WriteCall addr data # Tx [0x31, 0xCE] # evs"
proof -
  let ?w1 = "w\<lparr>trace := trace w @ [WriteCall addr data]\<rparr>"
  let ?w2 = "?w1\<lparr>trace := trace ?w1 @ [Tx [0x31, 0xCE]]\<rparr>"
  let ?rest = "\<lambda>acked.
       if \<not> acked then io_return False
       else
         let addrBytes = [js_and (js_shr addr 24) (Num 0xFF), js_and (js_shr addr 16) (Num 0xFF),
                          js_and (js_shr addr 8) (Num 0xFF), js_and addr (Num 0xFF)]
         in io_bind (writeBytes addrBytes) (\<lambda>_.
            io_bind (writeBytes [xorChecksum addrBytes]) (\<lambda>_.
            io_bind waitAck (\<lambda>acked2.
              if \<not> acked2 then io_return False
              else
                let payload = Num (int (length data) - 1) # data
                in io_bind (writeBytes payload) (\<lambda>_.
                   io_bind (writeBytes [xorChecksum payload]) (\<lambda>_. waitAck)))))"
  have rest: "adds (io_bind waitAck ?rest) wire"
    by (intro adds_bind_wire adds_waitAck)
      (simp add: Let_def adds_return adds_bind_wire adds_writeBytes adds_waitAck)
  have "blWrite addr data w = io_bind waitAck ?rest ?w2"
    unfolding blWrite_def bind_record_event blSendCmd_def
    by (simp add: io_bind_def writeBytes_eq cmd_0x31 [simplified] split: prod.splits result.splits)
  moreover from addsD [OF rest, of ?w2] obtain evs where
    "trace (snd (io_bind waitAck ?rest ?w2)) = trace ?w2 @ evs" by blast
  ultimately show ?thesis by simp
qed


lemma blWrite_all_acked:
  assumes "reads w = (d1, 0x79 # r1) # (d2, 0x79 # r2) # (d3, 0x79 # r3) # rest"
  shows "blWrite addr data w =
    (Ok True,
     w\<lparr>now := now w + d1 + d2 + d3, reads := rest,
       trace := trace w @
         [WriteCall addr data, Tx [0x31, 0xCE], RxWait 2000,
          Tx (map to_uint8 [js_and (js_shr addr 24) (Num 0xFF), js_and (js_shr addr 16) (Num 0xFF),
                            js_and (js_shr addr 8) (Num 0xFF), js_and addr (Num 0xFF)]),
          Tx [to_uint8 (xorChecksum [js_and (js_shr addr 24) (Num 0xFF),
                js_and (js_shr addr 16) (Num 0xFF),
                js_and (js_shr addr 8) (Num 0xFF), js_and addr (Num 0xFF)])],
          RxWait 2000,
          Tx (to_uint8 (Num (int (length data) - 1)) # map to_uint8 data),
          Tx [to_uint8 (xorChecksum (Num (int (length data) - 1) # data))],
          RxWait 2000]\<rparr>)"
proof -
  have c: "to_uint8 (Num 49) = 49" by simp
  show ?thesis
    unfolding blWrite_def bind_record_event blSendCmd_def
    using assms
    by (simp add: io_bind_def writeBytes_eq waitAck_ack io_return_def Let_def
        cmd_0x31 [simplified] c del: to_uint8.simps)
qed

lemma uint_to_uint8_mod: "uint (to_uint8 (Num k)) = k mod 256"
proof -
  have "uint (word_of_int k :: byte) = take_bit 8 k"
    by (simp only: unsigned_of_int) simp
  then show ?thesis by (simp only: to_uint8.simps take_bit_eq_mod) simp
qed

text \<open>
  Claim C2, as the code has it. \<open>blWrite\<close> checks no length. For every address, every data
  of any length (0 and more than 256 included) and every state of the device, the first
  thing it does is send the command bytes 0x31 0xCE; the only errors it throws are those of
  the serial line (a read timeout, an invalid response); when the device acknowledges the
  command, the address and the data it returns true, and the data frame it sent starts with
  the length byte, which is \<open>(data.length - 1) mod 256\<close>.
\<close>

theorem blWrite_checks_no_length:
  "(\<exists>evs. new_events w (snd (blWrite addr data w)) =
       WriteCall addr data # Tx [0x31, 0xCE] # evs) \<and>
   channel_result (fst (blWrite addr data w)) \<and>
   (reads w = (d1, 0x79 # r1) # (d2, 0x79 # r2) # (d3, 0x79 # r3) # rest \<longrightarrow>
      fst (blWrite addr data w) = Ok True \<and>
      transmissions (new_events w (snd (blWrite addr data w))) ! 3 =
        to_uint8 (Num (int (length data) - 1)) # map to_uint8 data) \<and>
   uint (to_uint8 (Num (int (length data) - 1))) = (int (length data) - 1) mod 256"
proof -
  from blWrite_first_events [of addr data w] obtain evs where
    "trace (snd (blWrite addr data w)) = trace w @ WriteCall addr data # Tx [0x31, 0xCE] # evs"
    by blast
  then have 1: "\<exists>evs. new_events w (snd (blWrite addr data w)) =
       WriteCall addr data # Tx [0x31, 0xCE] # evs"
    using trace_new_events by blast
  have 2: "channel_result (fst (blWrite addr data w))"
    using blWrite_trace [of addr data w] by blast
  have 3: "fst (blWrite addr data w) = Ok True \<and>
      transmissions (new_events w (snd (blWrite addr data w))) ! 3 =
        to_uint8 (Num (int (length data) - 1)) # map to_uint8 data"
    if "reads w = (d1, 0x79 # r1) # (d2, 0x79 # r2) # (d3, 0x79 # r3) # rest"
    by (simp add: blWrite_all_acked [OF that] new_events_def del: to_uint8.simps)
  from 1 2 3 uint_to_uint8_mod show ?thesis by blast
qed

theorem blWrite_checks_no_length_witness:
  "fst (blWrite (Num 0x08000000) [] (ack_world 3)) = Ok True \<and>
   transmissions (new_events (ack_world 3) (snd (blWrite (Num 0x08000000) [] (ack_world 3)))) ! 3
     = [0xFF]"
proof -
  have r: "reads (ack_world 3) = (0, 0x79 # []) # (0, 0x79 # []) # (0, 0x79 # []) # []"
    by (simp add: ack_world_def numeral_3_eq_3)
  from blWrite_checks_no_length [of "ack_world 3" "Num 0x08000000" "[]" 0 "[]" 0 "[]" 0 "[]" "[]"] r
  show ?thesis by simp
qed

text \<open>
  The claim as the specification states it fails: a chunk of 300 bytes is not rejected.
  With a device that acknowledges, \<open>blWrite\<close> returns true, having sent the command, the
  address and a data frame whose length byte is 299 mod 256 = 43.
\<close>

theorem writeMemory_300_bytes_counterexample:
  "fst (blWrite (Num 0x08000000) (replicate 300 (Num 0xFF)) (ack_world 3)) = Ok True \<and>
   take 2 (transmissions (trace (snd (blWrite (Num 0x08000000) (replicate 300 (Num 0xFF))
      (ack_world 3))))) = [[0x31, 0xCE], [0x08, 0x00, 0x00, 0x00]] \<and>
   hd (transmissions (trace (snd (blWrite (Num 0x08000000) (replicate 300 (Num 0xFF))
      (ack_world 3)))) ! 3) = 43"
  by code_simp

section \<open>Synchronising with the bootloader\<close>

declare blSync_loop.simps [simp del]

lemma blSync_loop_end: "\<not> i < 5 \<Longrightarrow> blSync_loop i w = (Throw SyncFailed, w)"
  by (subst blSync_loop.simps) (simp add: io_throw_def)

lemma blSync_loop_ok:
  "i < 5 \<Longrightarrow> fst (sync_attempt w) = Ok ACK \<Longrightarrow> blSync_loop i w = (Ok (), snd (sync_attempt w))"
  by (subst blSync_loop.simps)
    (auto simp add: sync_attempt_def io_bind_def io_catch_def io_return_def writeBytes_eq
      split: prod.splits result.splits)

lemma blSync_loop_blocked:
  "i < 5 \<Longrightarrow> fst (sync_attempt w) = Blocked \<Longrightarrow> blSync_loop i w = (Blocked, snd (sync_attempt w))"
  by (subst blSync_loop.simps)
    (auto simp add: sync_attempt_def io_bind_def io_catch_def io_return_def writeBytes_eq
      split: prod.splits result.splits)

lemma blSync_loop_retry:
  "i < 5 \<Longrightarrow> attempt_failed w \<Longrightarrow> blSync_loop i w = blSync_loop (i + 1) (after_failed w)"
  by (subst blSync_loop.simps)
    (auto simp add: sync_attempt_def attempt_failed_def after_failed_def io_bind_def io_catch_def
      io_return_def writeBytes_eq sleep_def
      split: prod.splits result.splits)

lemma sync_attempt_cases:
  "fst (sync_attempt w) = Ok ACK \<or> fst (sync_attempt w) = Blocked \<or> attempt_failed w"
  by (auto simp add: attempt_failed_def split: result.splits)

lemma sync_attempt_trace:
  "trace (snd (sync_attempt w)) = trace w @ [Tx [0x7F], RxWait 500]"
  by (simp add: sync_attempt_def writeBytes_eq readByte_def split: prod.splits)

lemma after_failed_trace:
  "trace (after_failed w) = trace w @ [Tx [0x7F], RxWait 500, Sleep 100]"
  by (simp add: after_failed_def sleep_def sync_attempt_trace)

lemma blSync_loop_success:
  "i + k < 5 \<Longrightarrow> (\<forall>j<k. attempt_failed ((after_failed ^^ j) w)) \<Longrightarrow>
   fst (sync_attempt ((after_failed ^^ k) w)) = Ok ACK \<Longrightarrow>
   blSync_loop i w = (Ok (), snd (sync_attempt ((after_failed ^^ k) w)))"
proof (induction k arbitrary: i w)
  case 0
  then show ?case by (simp add: blSync_loop_ok)
next
  case (Suc k)
  from Suc.prems(2) have f0: "attempt_failed w" by auto
  have fs: "\<forall>j<k. attempt_failed ((after_failed ^^ j) (after_failed w))"
  proof (intro allI impI)
    fix j
    assume "j < k"
    then have "Suc j < Suc k" by simp
    with Suc.prems(2) have "attempt_failed ((after_failed ^^ Suc j) w)" by blast
    then show "attempt_failed ((after_failed ^^ j) (after_failed w))"
      by (simp add: funpow_swap1)
  qed
  have "blSync_loop i w = blSync_loop (i + 1) (after_failed w)"
    using Suc.prems(1) f0 by (intro blSync_loop_retry) simp_all
  also have "\<dots> = (Ok (), snd (sync_attempt ((after_failed ^^ k) (after_failed w))))"
    using Suc.prems(1,3) fs by (intro Suc.IH) (simp_all add: funpow_swap1)
  finally show ?case by (simp add: funpow_swap1)
qed

lemma blSync_loop_exhausted:
  "i + k = 5 \<Longrightarrow> (\<forall>j<k. attempt_failed ((after_failed ^^ j) w)) \<Longrightarrow>
   blSync_loop i w = (Throw SyncFailed, (after_failed ^^ k) w)"
proof (induction k arbitrary: i w)
  case 0
  then show ?case by (simp add: blSync_loop_end)
next
  case (Suc k)
  from Suc.prems(2) have f0: "attempt_failed w" by auto
  have fs: "\<forall>j<k. attempt_failed ((after_failed ^^ j) (after_failed w))"
  proof (intro allI impI)
    fix j
    assume "j < k"
    then have "Suc j < Suc k" by simp
    with Suc.prems(2) have "attempt_failed ((after_failed ^^ Suc j) w)" by blast
    then show "attempt_failed ((after_failed ^^ j) (after_failed w))"
      by (simp add: funpow_swap1)
  qed
  have "blSync_loop i w = blSync_loop (i + 1) (after_failed w)"
    using Suc.prems(1) f0 by (intro blSync_loop_retry) simp_all
  also have "\<dots> = (Throw SyncFailed, (after_failed ^^ k) (after_failed w))"
    using Suc.prems(1) fs by (intro Suc.IH) simp_all
  finally show ?case by (simp add: funpow_swap1)
qed


lemma blSync_loop_trace:
  "i < 5 \<Longrightarrow>
   \<exists>k. 1 \<le> k \<and> i + k \<le> 5 \<and>
     trace (snd (blSync_loop i w)) =
       trace w @ concat (replicate (k - 1) failed_round) @ [Tx [0x7F], RxWait 500] @
         (if fst (blSync_loop i w) = Throw SyncFailed then [Sleep 100] else []) \<and>
     (fst (blSync_loop i w) = Throw SyncFailed \<longrightarrow> i + k = 5) \<and>
     fst (blSync_loop i w) \<in> {Ok (), Throw SyncFailed, Blocked}"
proof (induction "5 - i" arbitrary: i w rule: less_induct)
  case less
  consider (ok) "fst (sync_attempt w) = Ok ACK" | (blocked) "fst (sync_attempt w) = Blocked"
    | (failed) "attempt_failed w"
    using sync_attempt_cases by blast
  then show ?case
  proof cases
    case ok
    with less.prems show ?thesis
      by (intro exI [of _ 1]) (simp add: blSync_loop_ok sync_attempt_trace)
  next
    case blocked
    with less.prems show ?thesis
      by (intro exI [of _ 1]) (simp add: blSync_loop_blocked sync_attempt_trace)
  next
    case failed
    then have eq: "blSync_loop i w = blSync_loop (i + 1) (after_failed w)"
      using less.prems by (rule blSync_loop_retry [rotated])
    show ?thesis
    proof (cases "i + 1 < 5")
      case False
      with less.prems have "blSync_loop i w = (Throw SyncFailed, after_failed w)"
        using eq by (simp add: blSync_loop_end)
      with less.prems False show ?thesis
        by (intro exI [of _ 1]) (simp add: after_failed_trace)
    next
      case True
      then have "5 - (i + 1) < 5 - i" by simp
      from less.hyps [OF this True, of "after_failed w"] obtain k where k:
        "1 \<le> k" "i + 1 + k \<le> 5"
        "trace (snd (blSync_loop (i + 1) (after_failed w))) =
           trace (after_failed w) @ concat (replicate (k - 1) failed_round) @
           [Tx [0x7F], RxWait 500] @
           (if fst (blSync_loop (i + 1) (after_failed w)) = Throw SyncFailed then [Sleep 100] else [])"
        "fst (blSync_loop (i + 1) (after_failed w)) = Throw SyncFailed \<longrightarrow> i + 1 + k = 5"
        "fst (blSync_loop (i + 1) (after_failed w)) \<in> {Ok (), Throw SyncFailed, Blocked}"
        by blast
      have "replicate (Suc k - 1) failed_round = failed_round # replicate (k - 1) failed_round"
        using k(1) by (cases k) simp_all
      with k show ?thesis
        by (intro exI [of _ "Suc k"]) (simp add: eq after_failed_trace failed_round_def)
    qed
  qed
qed


lemma readByte_loop_timeout:
  "fst (readByte_loop start timeout t rs) = Throw ReadTimeout \<Longrightarrow>
   start \<le> t \<Longrightarrow> start + timeout \<le> fst (snd (readByte_loop start timeout t rs))"
  by (induction start timeout t rs rule: readByte_loop.induct)
    (auto split: list.splits if_splits)

lemma sync_attempt_timeout:
  assumes "fst (sync_attempt w) = Throw ReadTimeout"
  shows "now w + 500 \<le> now (snd (sync_attempt w))"
proof -
  let ?w = "snd (writeBytes [Num 0x7F] w)"
  have n: "now ?w = now w" by (simp add: writeBytes_eq)
  obtain r t rs where l: "readByte_loop (now ?w) 500 (now ?w) (reads ?w) = (r, t, rs)"
    by (cases "readByte_loop (now ?w) 500 (now ?w) (reads ?w)")
  with assms have "r = Throw ReadTimeout" by (simp add: sync_attempt_def readByte_def)
  with readByte_loop_timeout [of "now ?w" 500 "now ?w" "reads ?w"] l
  have "now ?w + 500 \<le> t" by simp
  with l n show ?thesis by (simp add: sync_attempt_def readByte_def)
qed

lemma after_failed_now: "now (after_failed w) = now (snd (sync_attempt w)) + 100"
  by (simp add: after_failed_def sleep_def)

text \<open>
  The retry loop where every read resolves. \<open>blSync\<close> makes between 1 and 5 attempts. Each
  attempt sends the byte 0x7F and calls \<open>readByte\<close> with a timeout of 500 ms, which throws
  its timeout no earlier than 500 ms after the attempt began. If the attempts before the
  \<open>k\<close>-th (\<open>k < 5\<close>, counted from 0) fail, by timeout or by a byte that is not ACK, and that
  attempt reads ACK, \<open>blSync\<close> returns there. After a failed attempt it sleeps 100 ms and
  tries again. If five attempts fail it throws "Sync failed", after five sends. It ends in
  no other way, unless a read never resolves.
\<close>

lemma blSync_retry_while_reads_resolve:
  "(\<forall>k<5. (\<forall>j<k. attempt_failed ((after_failed ^^ j) w)) \<longrightarrow>
      fst (sync_attempt ((after_failed ^^ k) w)) = Ok ACK \<longrightarrow>
      blSync w = (Ok (), snd (sync_attempt ((after_failed ^^ k) w)))) \<and>
   ((\<forall>j<5. attempt_failed ((after_failed ^^ j) w)) \<longrightarrow>
      blSync w = (Throw SyncFailed, (after_failed ^^ 5) w)) \<and>
   (\<exists>k. 1 \<le> k \<and> k \<le> 5 \<and>
      new_events w (snd (blSync w)) =
        concat (replicate (k - 1) failed_round) @ [Tx [0x7F], RxWait 500] @
        (if fst (blSync w) = Throw SyncFailed then [Sleep 100] else []) \<and>
      (fst (blSync w) = Throw SyncFailed \<longrightarrow> k = 5)) \<and>
   fst (blSync w) \<in> {Ok (), Throw SyncFailed, Blocked} \<and>
   (fst (sync_attempt w) = Throw ReadTimeout \<longrightarrow> now w + 500 \<le> now (snd (sync_attempt w))) \<and>
   now (after_failed w) = now (snd (sync_attempt w)) + 100"
proof -
  have 1: "blSync w = (Ok (), snd (sync_attempt ((after_failed ^^ k) w)))"
    if "k < 5" "\<forall>j<k. attempt_failed ((after_failed ^^ j) w)"
      "fst (sync_attempt ((after_failed ^^ k) w)) = Ok ACK" for k
    unfolding blSync_def using that by (intro blSync_loop_success) simp_all
  have 2: "blSync w = (Throw SyncFailed, (after_failed ^^ 5) w)"
    if "\<forall>j<5. attempt_failed ((after_failed ^^ j) w)"
    unfolding blSync_def using that by (intro blSync_loop_exhausted) simp_all
  have "\<exists>k. 1 \<le> k \<and> 0 + k \<le> 5 \<and>
     trace (snd (blSync_loop 0 w)) =
       trace w @ concat (replicate (k - 1) failed_round) @ [Tx [0x7F], RxWait 500] @
         (if fst (blSync_loop 0 w) = Throw SyncFailed then [Sleep 100] else []) \<and>
     (fst (blSync_loop 0 w) = Throw SyncFailed \<longrightarrow> 0 + k = 5) \<and>
     fst (blSync_loop 0 w) \<in> {Ok (), Throw SyncFailed, Blocked}"
    by (rule blSync_loop_trace) simp
  then obtain k where k0: "1 \<le> k" "0 + k \<le> 5"
    "trace (snd (blSync_loop 0 w)) =
       trace w @ concat (replicate (k - 1) failed_round) @ [Tx [0x7F], RxWait 500] @
         (if fst (blSync_loop 0 w) = Throw SyncFailed then [Sleep 100] else [])"
    "fst (blSync_loop 0 w) = Throw SyncFailed \<longrightarrow> 0 + k = 5"
    "fst (blSync_loop 0 w) \<in> {Ok (), Throw SyncFailed, Blocked}"
    by blast
  have k: "1 \<le> k" "k \<le> 5"
    "trace (snd (blSync w)) =
       trace w @ concat (replicate (k - 1) failed_round) @ [Tx [0x7F], RxWait 500] @
         (if fst (blSync w) = Throw SyncFailed then [Sleep 100] else [])"
    "fst (blSync w) = Throw SyncFailed \<longrightarrow> k = 5"
    "fst (blSync w) \<in> {Ok (), Throw SyncFailed, Blocked}"
    using k0 by (simp_all only: blSync_def add_0)
  from trace_new_events [OF k(3)] k(1,2,4)
  have 3: "\<exists>k. 1 \<le> k \<and> k \<le> 5 \<and>
      new_events w (snd (blSync w)) =
        concat (replicate (k - 1) failed_round) @ [Tx [0x7F], RxWait 500] @
        (if fst (blSync w) = Throw SyncFailed then [Sleep 100] else []) \<and>
      (fst (blSync w) = Throw SyncFailed \<longrightarrow> k = 5)"
    by blast
  show ?thesis
  proof (intro conjI allI impI)
    fix k
    assume "k < 5" "\<forall>j<k. attempt_failed ((after_failed ^^ j) w)"
      "fst (sync_attempt ((after_failed ^^ k) w)) = Ok ACK"
    then show "blSync w = (Ok (), snd (sync_attempt ((after_failed ^^ k) w)))" by (rule 1)
  next
    assume "\<forall>j<5. attempt_failed ((after_failed ^^ j) w)"
    then show "blSync w = (Throw SyncFailed, (after_failed ^^ 5) w)" by (rule 2)
  next
    show "\<exists>k. 1 \<le> k \<and> k \<le> 5 \<and>
      new_events w (snd (blSync w)) =
        concat (replicate (k - 1) failed_round) @ [Tx [0x7F], RxWait 500] @
        (if fst (blSync w) = Throw SyncFailed then [Sleep 100] else []) \<and>
      (fst (blSync w) = Throw SyncFailed \<longrightarrow> k = 5)" by (rule 3)
  next
    show "fst (blSync w) \<in> {Ok (), Throw SyncFailed, Blocked}" by (rule k(5))
  next
    assume "fst (sync_attempt w) = Throw ReadTimeout"
    then show "now w + 500 \<le> now (snd (sync_attempt w))" by (rule sync_attempt_timeout)
  next
    show "now (after_failed w) = now (snd (sync_attempt w)) + 100" by (rule after_failed_now)
  qed
qed

lemma blSync_retry_examples:
  "blSync flaky_device =
     (Ok (), \<lparr>now = 806, reads = [], trace =
        [Tx [0x7F], RxWait 500, Sleep 100, Tx [0x7F], RxWait 500, Sleep 100,
         Tx [0x7F], RxWait 500]\<rparr>) \<and>
   blSync empty_reads_device =
     (Throw SyncFailed, \<lparr>now = 3500, reads = [], trace =
        [Tx [0x7F], RxWait 500, Sleep 100, Tx [0x7F], RxWait 500, Sleep 100,
         Tx [0x7F], RxWait 500, Sleep 100, Tx [0x7F], RxWait 500, Sleep 100,
         Tx [0x7F], RxWait 500, Sleep 100]\<rparr>) \<and>
   now flaky_device + 500 \<le> now (snd (sync_attempt flaky_device))"
proof -
  define f1 where "f1 = \<lparr>now = 700, reads = [(3, [0x1F]), (3, [0x79::byte])],
    trace = [Tx [0x7F], RxWait 500, Sleep 100]\<rparr>"
  define f2 where "f2 = \<lparr>now = 803, reads = [(3, [0x79::byte])],
    trace = [Tx [0x7F], RxWait 500, Sleep 100, Tx [0x7F], RxWait 500, Sleep 100]\<rparr>"
  have fa: "attempt_failed flaky_device" "after_failed flaky_device = f1"
    unfolding f1_def by code_simp+
  have fb: "attempt_failed f1" "after_failed f1 = f2"
    unfolding f1_def f2_def by code_simp+
  have pw: "(after_failed ^^ 2) flaky_device = f2"
    by (simp add: numeral_2_eq_2 fa fb)
  have f: "\<forall>j<2. attempt_failed ((after_failed ^^ j) flaky_device)"
  proof (intro allI impI)
    fix j :: nat
    assume "j < 2"
    then have "j = 0 \<or> j = 1" by auto
    with fa fb show "attempt_failed ((after_failed ^^ j) flaky_device)" by auto
  qed
  have a: "fst (sync_attempt ((after_failed ^^ 2) flaky_device)) = Ok ACK"
    unfolding pw f2_def by code_simp
  have r: "snd (sync_attempt ((after_failed ^^ 2) flaky_device)) =
     \<lparr>now = 806, reads = [], trace =
        [Tx [0x7F], RxWait 500, Sleep 100, Tx [0x7F], RxWait 500, Sleep 100,
         Tx [0x7F], RxWait 500]\<rparr>"
    unfolding pw f2_def by code_simp
  have t: "fst (sync_attempt flaky_device) = Throw ReadTimeout"
    by code_simp
  define s1 where "s1 = \<lparr>now = 700, reads = replicate 4 (600, [] :: byte list),
    trace = [Tx [0x7F], RxWait 500, Sleep 100]\<rparr>"
  define s2 where "s2 = \<lparr>now = 1400, reads = replicate 3 (600, [] :: byte list),
    trace = [Tx [0x7F], RxWait 500, Sleep 100, Tx [0x7F], RxWait 500, Sleep 100]\<rparr>"
  define s3 where "s3 = \<lparr>now = 2100, reads = replicate 2 (600, [] :: byte list),
    trace = [Tx [0x7F], RxWait 500, Sleep 100, Tx [0x7F], RxWait 500, Sleep 100,
             Tx [0x7F], RxWait 500, Sleep 100]\<rparr>"
  define s4 where "s4 = \<lparr>now = 2800, reads = replicate 1 (600, [] :: byte list),
    trace = [Tx [0x7F], RxWait 500, Sleep 100, Tx [0x7F], RxWait 500, Sleep 100,
             Tx [0x7F], RxWait 500, Sleep 100, Tx [0x7F], RxWait 500, Sleep 100]\<rparr>"
  define s5 where "s5 = \<lparr>now = 3500, reads = [] :: (nat \<times> byte list) list,
    trace = [Tx [0x7F], RxWait 500, Sleep 100, Tx [0x7F], RxWait 500, Sleep 100,
             Tx [0x7F], RxWait 500, Sleep 100, Tx [0x7F], RxWait 500, Sleep 100,
             Tx [0x7F], RxWait 500, Sleep 100]\<rparr>"
  have sa: "attempt_failed empty_reads_device" "after_failed empty_reads_device = s1"
    unfolding s1_def by code_simp+
  have sb: "attempt_failed s1" "after_failed s1 = s2"
    unfolding s1_def s2_def by code_simp+
  have sc: "attempt_failed s2" "after_failed s2 = s3"
    unfolding s2_def s3_def by code_simp+
  have sd: "attempt_failed s3" "after_failed s3 = s4"
    unfolding s3_def s4_def by code_simp+
  have se: "attempt_failed s4" "after_failed s4 = s5"
    unfolding s4_def s5_def by code_simp+
  have s: "\<forall>j<5. attempt_failed ((after_failed ^^ j) empty_reads_device)"
  proof (intro allI impI)
    fix j :: nat
    assume "j < 5"
    then have "j = 0 \<or> j = 1 \<or> j = 2 \<or> j = 3 \<or> j = 4" by auto
    with sa sb sc sd se show "attempt_failed ((after_failed ^^ j) empty_reads_device)"
      by (auto simp add: eval_nat_numeral funpow_swap1)
  qed
  have e: "(after_failed ^^ 5) empty_reads_device = s5"
    by (simp add: eval_nat_numeral funpow_swap1 sa sb sc sd se)
  have two: "(2::nat) < 5" by simp
  note F = blSync_retry_while_reads_resolve [of flaky_device]
  have "blSync flaky_device = (Ok (), snd (sync_attempt ((after_failed ^^ 2) flaky_device)))"
    using F [THEN conjunct1, rule_format, OF two f [rule_format] a] .
  then have 1: "blSync flaky_device =
     (Ok (), \<lparr>now = 806, reads = [], trace =
        [Tx [0x7F], RxWait 500, Sleep 100, Tx [0x7F], RxWait 500, Sleep 100,
         Tx [0x7F], RxWait 500]\<rparr>)"
    by (simp only: r)
  have 3: "now flaky_device + 500 \<le> now (snd (sync_attempt flaky_device))"
    using F [THEN conjunct2, THEN conjunct2, THEN conjunct2, THEN conjunct2, THEN conjunct1,
      rule_format, OF t] .
  note S = blSync_retry_while_reads_resolve [of empty_reads_device]
  have "blSync empty_reads_device = (Throw SyncFailed, (after_failed ^^ 5) empty_reads_device)"
    using S [THEN conjunct2, THEN conjunct1, rule_format, OF s [rule_format]] .
  then have 2: "blSync empty_reads_device = (Throw SyncFailed, s5)"
    by (simp only: e)
  from 1 2 3 show ?thesis unfolding s5_def by (intro conjI)
qed

text \<open>
  Claim C7. The claim has \<open>sync()\<close> retry on a timeout of about 500 ms and fail with
  \<open>SyncError\<close> after five attempts. \<open>readByte\<close> looks at the clock only between two reads
  and never abandons a pending \<open>reader.read()\<close>. With a device that sends nothing, \<open>blSync\<close>
  sends 0x7F once and waits in its first read for ever: no retry, no "Sync failed". With a
  device that answers ACK after 10 seconds, \<open>blSync\<close> succeeds by its first attempt, 10000 ms
  after it began.
\<close>

theorem blSync_waits_for_silent_device:
  "blSync silent_device =
     (Blocked, \<lparr>now = 0, reads = [], trace = [Tx [0x7F], RxWait 500]\<rparr>) \<and>
   blSync late_device =
     (Ok (), \<lparr>now = 10000, reads = [], trace = [Tx [0x7F], RxWait 500]\<rparr>)"
  by code_simp

section \<open>Malformed records\<close>

declare store_data.simps [simp del]









section \<open>Parsing what was written as Intel HEX\<close>

subsection \<open>\<open>parseInt\<close> on hex digits\<close>










subsection \<open>The fields of a rendered record\<close>


lemma length_hex_byte: "length (hex_byte lower n) = 2"
  by (simp add: hex_byte_def nibbles_def)

lemma length_payload_text:
  "length (concat (map (\<lambda>b. hex_byte lower (unat b)) bs)) = 2 * length bs"
  by (induction bs) (simp_all add: length_hex_byte)





subsection \<open>What the data loop stores\<close>



subsection \<open>One record\<close>







subsection \<open>The lines of a rendered text\<close>









subsection \<open>The whole text\<close>




subsection \<open>Reading back what was placed\<close>







end
